theory Spec2Isabelle
  imports Complex_Main
begin

section \<open>Tensors as nested lists\<close>

text \<open>
  The notebooks compute on TensorFlow float32 tensors. Except for the float32
  section below, the embedding takes the numbers as reals, so rounding, NaN and
  infinities are outside that part of the model. Indices are integers, and the
  cast from a float to int32 yields the smallest int32 outside the int32 range.
  A rank-1 tensor is a list of numbers, a rank-2 tensor a list of rows of one
  common length, a rank-3 tensor a list of rank-2 tensors of one common shape. The functions of the source
  are rank-polymorphic; each is written here at the ranks at which the notebooks
  use it: the stack has a rank-2 buffer and rank-1 elements, which is what
  \<open>tf.tile(element, [arr_shape[0]])\<close> in the assignment accepts. A tensor
  with no rows is the empty list, so the width of a 0-row tensor is not
  represented. Where TensorFlow raises (incompatible shapes, an index out of
  bounds, a reduction over nothing) the functions return \<open>Inl\<close>.
\<close>

type_synonym vec = "real list"
type_synonym mat = "real list list"
type_synonym tensor3 = "real list list list"

datatype tf_error = InvalidArgument

fun sequence_r :: "(tf_error + 'a) list \<Rightarrow> tf_error + 'a list" where
  "sequence_r [] = Inr []"
| "sequence_r (r # rs) =
     (case r of
        Inl e \<Rightarrow> Inl e
      | Inr x \<Rightarrow> (case sequence_r rs of Inl e \<Rightarrow> Inl e | Inr xs \<Rightarrow> Inr (x # xs)))"

text \<open>
  Elementwise binary operators broadcast along an axis: equal sizes pair up, a size
  of 1 is repeated, anything else is an error.
\<close>

definition broadcast :: "('a \<Rightarrow> 'b \<Rightarrow> tf_error + 'c) \<Rightarrow> 'a list \<Rightarrow> 'b list \<Rightarrow> tf_error + 'c list" where
  "broadcast f xs ys =
     (if length xs = length ys then sequence_r (map2 f xs ys)
      else if length ys = 1 then sequence_r (map (\<lambda>x. f x (hd ys)) xs)
      else if length xs = 1 then sequence_r (map (\<lambda>y. f (hd xs) y) ys)
      else Inl InvalidArgument)"

definition ewise1 :: "(real \<Rightarrow> real \<Rightarrow> real) \<Rightarrow> vec \<Rightarrow> vec \<Rightarrow> tf_error + vec" where
  "ewise1 f = broadcast (\<lambda>a b. Inr (f a b))"

definition ewise2 :: "(real \<Rightarrow> real \<Rightarrow> real) \<Rightarrow> mat \<Rightarrow> mat \<Rightarrow> tf_error + mat" where
  "ewise2 f = broadcast (ewise1 f)"

definition ewise3 :: "(real \<Rightarrow> real \<Rightarrow> real) \<Rightarrow> tensor3 \<Rightarrow> tensor3 \<Rightarrow> tf_error + tensor3" where
  "ewise3 f = broadcast (ewise2 f)"

definition shape2 :: "mat \<Rightarrow> nat \<times> nat" where
  "shape2 M = (length M, if M = [] then 0 else length (hd M))"

definition expand_dims_last :: "vec \<Rightarrow> mat" where
  "expand_dims_last xs = map (\<lambda>x. [x]) xs"

definition expand_dims_first :: "vec \<Rightarrow> mat" where
  "expand_dims_first xs = [xs]"

definition transpose_mat :: "mat \<Rightarrow> mat" where
  "transpose_mat M =
     (if M = [] then [] else map (\<lambda>j. map (\<lambda>row. row ! j) M) [0..<length (hd M)])"

definition tile :: "vec \<Rightarrow> nat \<Rightarrow> vec" where
  "tile xs k = concat (replicate k xs)"

definition reshape2 :: "vec \<Rightarrow> nat \<times> nat \<Rightarrow> tf_error + mat" where
  "reshape2 flat shp =
     (case shp of (n, m) \<Rightarrow>
        if length flat = n * m
        then Inr (map (\<lambda>i. take m (drop (i * m) flat)) [0..<n])
        else Inl InvalidArgument)"

definition one_hot :: "nat \<Rightarrow> nat \<Rightarrow> vec" where
  "one_hot i n = map (\<lambda>j. if j = i then 1 else 0) [0..<n]"


text \<open>\<open>tf.roll(xs, shift, axis=0)\<close>: the entry at \<open>j\<close> moves to \<open>(j + shift) mod n\<close>.\<close>

definition roll :: "'a list \<Rightarrow> int \<Rightarrow> 'a list" where
  "roll xs shift =
     map (\<lambda>j. xs ! nat ((int j - shift) mod int (length xs))) [0..<length xs]"

definition reduce_sum0 :: "mat \<Rightarrow> vec" where
  "reduce_sum0 M =
     (if M = [] then [] else map (\<lambda>j. sum_list (map (\<lambda>row. row ! j) M)) [0..<length (hd M)])"


text \<open>
  \<open>arr[i]\<close> with a scalar integer tensor \<open>i\<close>: a negative index counts from the
  end, an index outside \<open>[-n, n)\<close> raises.
\<close>

definition tf_index :: "'a list \<Rightarrow> int \<Rightarrow> tf_error + 'a" where
  "tf_index arr i =
     (let n = int (length arr) in
      if 0 \<le> i \<and> i < n then Inr (arr ! nat i)
      else if - n \<le> i \<and> i < 0 then Inr (arr ! nat (i + n))
      else Inl InvalidArgument)"

section \<open>Differentiable indexed arrays\<close>


text \<open>
  \<open>tf.cast(x, tf.int32)\<close> of a float truncates towards zero. A value whose
  truncation is outside the int32 range is converted to the smallest int32,
  \<open>-2^31\<close>, which is what the conversion instruction of the CPU kernel returns.
\<close>

definition cast_int32 :: "real \<Rightarrow> int" where
  "cast_int32 x =
     (let z = (if 0 \<le> x then \<lfloor>x\<rfloor> else \<lceil>x\<rceil>) in
      if - (2 ^ 31) \<le> z \<and> z < 2 ^ 31 then z else - (2 ^ 31))"



text \<open>
  \<open>superposition_lookup_vectored\<close> on a rank-2 array (the stack's read), on a
  rank-1 array (the branch \<open>tf.rank(arr) == 1\<close>) and on a rank-3 array, where
  the \<open>[n, 1]\<close> index tensor is aligned with the two trailing axes of \<open>arr\<close>.
\<close>

definition superposition_lookup_vectored :: "mat \<Rightarrow> vec \<Rightarrow> tf_error + vec" where
  "superposition_lookup_vectored arr indices =
     (let indices = expand_dims_last indices in
      case ewise2 (*) arr indices of
        Inl e \<Rightarrow> Inl e
      | Inr result \<Rightarrow> Inr (reduce_sum0 result))"






text \<open>
  \<open>asymmetrical_vectored_lookup\<close>: the forward value and, as a function of its
  own, the custom gradient \<open>grad\<close> that the source returns as a closure over
  \<open>v\<close>, \<open>k\<close> and the forward value. \<open>tf.argmax\<close> and \<open>tf.argmin\<close> return the
  first index of an extremal entry and raise on an empty axis.
\<close>

definition first_index :: "('a \<Rightarrow> bool) \<Rightarrow> 'a list \<Rightarrow> nat" where
  "first_index P xs = length (takeWhile (\<lambda>x. \<not> P x) xs)"

definition argmax :: "vec \<Rightarrow> tf_error + nat" where
  "argmax xs =
     (if xs = [] then Inl InvalidArgument else Inr (first_index (\<lambda>x. x = Max (set xs)) xs))"

definition argmin :: "vec \<Rightarrow> tf_error + nat" where
  "argmin xs =
     (if xs = [] then Inl InvalidArgument else Inr (first_index (\<lambda>x. x = Min (set xs)) xs))"

definition gather_nd :: "mat \<Rightarrow> (nat \<times> nat) list \<Rightarrow> tf_error + vec" where
  "gather_nd v idx =
     sequence_r (map (\<lambda>(a, b).
        if a < length v \<and> b < length (v ! a) then Inr (v ! a ! b) else Inl InvalidArgument) idx)"

definition asymmetrical_vectored_lookup :: "mat \<Rightarrow> mat \<Rightarrow> tf_error + vec" where
  "asymmetrical_vectored_lookup v k =
     (case sequence_r (map argmax k) of
        Inl e \<Rightarrow> Inl e
      | Inr b_idx \<Rightarrow>
          (let idx_len = length b_idx;
               a_idx = [0..<idx_len];
               idx = zip a_idx b_idx
           in gather_nd v idx))"

definition grad :: "mat \<Rightarrow> mat \<Rightarrow> vec \<Rightarrow> vec \<Rightarrow> tf_error + mat \<times> mat" where
  "grad v k forward_result upstream_grads =
     (case shape2 k of (k_rows, k_cols) \<Rightarrow>
      (case ewise1 (-) forward_result upstream_grads of Inl e \<Rightarrow> Inl e | Inr target \<Rightarrow>
      (let target = expand_dims_last target in
       case ewise2 (\<lambda>x y. (x - y)\<^sup>2) v target of Inl e \<Rightarrow> Inl e | Inr diff_vector \<Rightarrow>
      (case sequence_r (map argmin diff_vector) of Inl e \<Rightarrow> Inl e | Inr d_idx \<Rightarrow>
      (let ones = replicate k_rows (replicate k_cols 1);
           eyes = map (\<lambda>d. one_hot d k_cols) d_idx
       in case ewise2 (-) (map (map (\<lambda>x. 2 * x)) eyes) ones of Inl e \<Rightarrow> Inl e | Inr m \<Rightarrow>
      (let k_grad = map (map uminus) m;
           v_grad = k;
           upstream_grads = expand_dims_last upstream_grads
       in case ewise2 (*) upstream_grads v_grad of Inl e \<Rightarrow> Inl e | Inr gv \<Rightarrow>
         (case ewise2 (*) (map (map abs) upstream_grads) k_grad of Inl e \<Rightarrow> Inl e | Inr gk \<Rightarrow>
            Inr (gv, gk))))))))"

text \<open>
  \<open>assign_index_vectored\<close>, on a rank-2 array with a rank-1 index and a rank-1
  element.
\<close>

definition assign_index_vectored :: "mat \<Rightarrow> vec \<Rightarrow> vec \<Rightarrow> tf_error + mat" where
  "assign_index_vectored arr index element =
     (let arr_shape = shape2 arr;
          pos_mask = transpose_mat (expand_dims_first index);
          neg_mask = map (map (\<lambda>x. 1 - x)) pos_mask
      in case reshape2 (tile element (fst arr_shape)) arr_shape of
           Inl e \<Rightarrow> Inl e
         | Inr tiled_element \<Rightarrow>
             (case ewise2 (*) arr neg_mask of Inl e \<Rightarrow> Inl e | Inr kept \<Rightarrow>
             (case ewise2 (*) tiled_element pos_mask of Inl e \<Rightarrow> Inl e | Inr written \<Rightarrow>
                ewise2 (+) kept written)))"

text \<open>
  \<open>match_shapes\<close> and \<open>broadcast_multiply\<close> at a rank-2 first argument and a
  rank-3 second argument, as \<open>tensor_lookup_2d\<close> calls them: the rank-2 tensor is
  the lower one, and the higher one comes back first.
\<close>

definition shape3 :: "tensor3 \<Rightarrow> nat list" where
  "shape3 T =
     [length T,
      if T = [] then 0 else length (hd T),
      if T = [] \<or> hd T = [] then 0 else length (hd (hd T))]"

definition match_shapes :: "mat \<Rightarrow> tensor3 \<Rightarrow> tf_error + tensor3 \<times> tensor3" where
  "match_shapes x y =
     (let low = x; high = y;
          l_rank = 2; l_shape = [fst (shape2 low), snd (shape2 low)];
          h_shape = shape3 high;
          common_shape = take l_rank h_shape
      in if common_shape \<noteq> l_shape then Inl InvalidArgument
         else Inr (high, map (map (\<lambda>a. [a])) low))"

definition broadcast_multiply :: "mat \<Rightarrow> tensor3 \<Rightarrow> tf_error + tensor3" where
  "broadcast_multiply x y =
     (case match_shapes x y of
        Inl e \<Rightarrow> Inl e
      | Inr (x', y') \<Rightarrow> ewise3 (*) x' y')"

definition tensordot0 :: "vec \<Rightarrow> vec \<Rightarrow> mat" where
  "tensordot0 x y = map (\<lambda>a. map (\<lambda>b. a * b) y) x"

text \<open>
  \<open>tf.math.reduce_max(t, axis=[0,1])\<close>: for each position of the last axis, the
  maximum over all cells of the first two axes. A reduction over no cell is \<open>-inf\<close>
  in TensorFlow, which is no real number: the model returns \<open>Inl\<close> there.
\<close>

definition reduce_max01 :: "tensor3 \<Rightarrow> tf_error + vec" where
  "reduce_max01 T =
     (let cells = concat T in
      if cells = [] then Inl InvalidArgument
      else Inr (map (\<lambda>c. Max (set (map (\<lambda>cell. cell ! c) cells))) [0..<length (hd cells)]))"

definition tensor_lookup_2d :: "tensor3 \<Rightarrow> vec \<Rightarrow> vec \<Rightarrow> tf_error + vec" where
  "tensor_lookup_2d arr x_index y_index =
     (let mask = tensordot0 x_index y_index in
      case broadcast_multiply mask arr of
        Inl e \<Rightarrow> Inl e
      | Inr masked_arr \<Rightarrow> reduce_max01 masked_arr)"

section \<open>The differentiable stack\<close>

text \<open>A stack is the pair \<open>(buffer, index)\<close>; \<open>index\<close> points to the top of the stack + 1.\<close>

type_synonym stack = "mat \<times> vec"


definition stack_push :: "stack \<Rightarrow> vec \<Rightarrow> tf_error + stack" where
  "stack_push stack element =
     (case stack of (buffer, index) \<Rightarrow>
        (case assign_index_vectored buffer index element of
           Inl e \<Rightarrow> Inl e
         | Inr buffer' \<Rightarrow> Inr (buffer', roll index 1)))"

definition stack_pop :: "stack \<Rightarrow> tf_error + stack \<times> vec" where
  "stack_pop stack =
     (case stack of (buffer, index) \<Rightarrow>
        (let index = roll index (- 1) in
         case superposition_lookup_vectored buffer index of
           Inl e \<Rightarrow> Inl e
         | Inr element \<Rightarrow> Inr ((buffer, index), element)))"

definition stack_peek :: "stack \<Rightarrow> tf_error + vec" where
  "stack_peek stack =
     (case stack of (buffer, index) \<Rightarrow>
        (let index = roll index (- 1) in
         superposition_lookup_vectored buffer index))"

text \<open>The two loops of \<open>reverse_list\<close>, and \<open>reverse_list\<close> itself.\<close>

fun push_loop :: "stack \<Rightarrow> vec list \<Rightarrow> tf_error + stack" where
  "push_loop stack1 [] = Inr stack1"
| "push_loop stack1 (element # rest) =
     (case stack_push stack1 element of
        Inl e \<Rightarrow> Inl e
      | Inr stack1' \<Rightarrow> push_loop stack1' rest)"





text \<open>
  A rank-2 tensor of shape \<open>[n, m]\<close>: \<open>n\<close> rows, each of length \<open>m\<close>.
\<close>

definition has_shape :: "mat \<Rightarrow> nat \<Rightarrow> nat \<Rightarrow> bool" where
  "has_shape M n m = (length M = n \<and> list_all (\<lambda>row. length row = m) M)"

section \<open>Float32 arithmetic\<close>

text \<open>
  For the interpolating read the embedding also follows the float32 arithmetic of
  the tensors. A float32 is a finite real, an infinity or NaN; the sign of zero is
  not kept.
\<close>

datatype f32 = Finite real | PosInf | NegInf | NaN

text \<open>
  \<open>f32_round\<close> rounds a real to the nearest float32, ties to the even
  significand: 24 significant bits, the least exponent \<open>-126\<close> (below it the
  spacing stays \<open>2^-149\<close>, the subnormal numbers), and an infinity when the
  rounded magnitude reaches \<open>2^128\<close>. \<open>ilog2_fuel\<close> finds the binary exponent
  of a positive real in at most 128 steps: a magnitude that needs more is rounded
  as a subnormal number or to an infinity. \<open>is_f32\<close> holds of the reals that are
  float32 values.
\<close>

fun ilog2_fuel :: "nat \<Rightarrow> real \<Rightarrow> int" where
  "ilog2_fuel 0 x = 0"
| "ilog2_fuel (Suc n) x =
     (if x < 1 then ilog2_fuel n (2 * x) - 1
      else if 2 \<le> x then ilog2_fuel n (x / 2) + 1
      else 0)"

definition pow2 :: "int \<Rightarrow> real" where
  "pow2 k = (if 0 \<le> k then 2 ^ nat k else 1 / 2 ^ nat (- k))"

definition round_half_even :: "real \<Rightarrow> int" where
  "round_half_even y =
     (let f = \<lfloor>y\<rfloor>; d = y - real_of_int f in
      if d < 1 / 2 then f
      else if 1 / 2 < d then f + 1
      else if even f then f else f + 1)"

definition f32_round :: "real \<Rightarrow> f32" where
  "f32_round x =
     (if x = 0 then Finite 0
      else
        (let e = max (- 126) (ilog2_fuel 128 \<bar>x\<bar>);
             q = pow2 (e - 23);
             r = real_of_int (round_half_even (x / q)) * q
         in if 2 ^ 128 \<le> \<bar>r\<bar> then (if 0 < x then PosInf else NegInf) else Finite r))"

definition is_f32 :: "real \<Rightarrow> bool" where
  "is_f32 x = (f32_round x = Finite x)"

text \<open>
  Each operation returns the exact result rounded to float32, with the IEEE 754
  results on infinities, NaN and a zero divisor. \<open>tf.math.divide_no_nan\<close>
  returns 0 where the denominator is 0.
\<close>

fun f32_neg :: "f32 \<Rightarrow> f32" where
  "f32_neg (Finite x) = Finite (- x)"
| "f32_neg PosInf = NegInf"
| "f32_neg NegInf = PosInf"
| "f32_neg NaN = NaN"

fun fadd :: "f32 \<Rightarrow> f32 \<Rightarrow> f32" where
  "fadd (Finite x) (Finite y) = f32_round (x + y)"
| "fadd NaN _ = NaN"
| "fadd _ NaN = NaN"
| "fadd PosInf NegInf = NaN"
| "fadd NegInf PosInf = NaN"
| "fadd PosInf _ = PosInf"
| "fadd _ PosInf = PosInf"
| "fadd NegInf _ = NegInf"
| "fadd _ NegInf = NegInf"

definition fsub :: "f32 \<Rightarrow> f32 \<Rightarrow> f32" where
  "fsub a b = fadd a (f32_neg b)"

fun fmul :: "f32 \<Rightarrow> f32 \<Rightarrow> f32" where
  "fmul (Finite x) (Finite y) = f32_round (x * y)"
| "fmul NaN _ = NaN"
| "fmul _ NaN = NaN"
| "fmul (Finite x) i = (if x = 0 then NaN else if 0 < x then i else f32_neg i)"
| "fmul i (Finite y) = (if y = 0 then NaN else if 0 < y then i else f32_neg i)"
| "fmul PosInf i = i"
| "fmul NegInf i = f32_neg i"

fun fdiv :: "f32 \<Rightarrow> f32 \<Rightarrow> f32" where
  "fdiv (Finite x) (Finite y) =
     (if y = 0 then (if x = 0 then NaN else if 0 < x then PosInf else NegInf)
      else f32_round (x / y))"
| "fdiv NaN _ = NaN"
| "fdiv _ NaN = NaN"
| "fdiv (Finite x) _ = Finite 0"
| "fdiv i (Finite y) = (if 0 \<le> y then i else f32_neg i)"
| "fdiv _ _ = NaN"

definition divide_no_nan_f32 :: "f32 \<Rightarrow> f32 \<Rightarrow> f32" where
  "divide_no_nan_f32 x y = (if y = Finite 0 then Finite 0 else fdiv x y)"

text \<open>
  The floor and the ceiling of a float32 are float32 values, so they are not
  rounded. The cast to int32 of an infinity or NaN is the smallest int32.
\<close>

fun f32_floor :: "f32 \<Rightarrow> f32" where
  "f32_floor (Finite x) = Finite (real_of_int \<lfloor>x\<rfloor>)"
| "f32_floor v = v"

fun f32_ceil :: "f32 \<Rightarrow> f32" where
  "f32_ceil (Finite x) = Finite (real_of_int \<lceil>x\<rceil>)"
| "f32_ceil v = v"

fun cast_int32_f32 :: "f32 \<Rightarrow> int" where
  "cast_int32_f32 (Finite x) = cast_int32 x"
| "cast_int32_f32 v = - (2 ^ 31)"

text \<open>
  \<open>interp_factor\<close> and \<open>linear_lookup\<close> in float32, the latter on a rank-1
  array and on a rank-2 array, where the read is a row and the arithmetic is
  elementwise.
\<close>

definition interp_factor_f32 :: "f32 \<Rightarrow> f32 \<times> int \<times> int" where
  "interp_factor_f32 index =
     (let t1 = f32_floor index;
          t2 = f32_ceil index;
          t = divide_no_nan_f32 (fsub index t1) (fsub t2 t1);
          i1 = cast_int32_f32 t1;
          i2 = cast_int32_f32 t2
      in (t, i1, i2))"

definition linear_lookup_f32 :: "f32 list \<Rightarrow> f32 \<Rightarrow> tf_error + f32" where
  "linear_lookup_f32 arr index =
     (case interp_factor_f32 index of (t, i1, i2) \<Rightarrow>
        (case tf_index arr i1 of Inl e \<Rightarrow> Inl e | Inr a1 \<Rightarrow>
        (case tf_index arr i2 of Inl e \<Rightarrow> Inl e | Inr a2 \<Rightarrow>
           Inr (fadd (fmul t a1) (fmul (fsub (Finite 1) t) a2)))))"

definition linear_lookup_rank2_f32 :: "f32 list list \<Rightarrow> f32 \<Rightarrow> tf_error + f32 list" where
  "linear_lookup_rank2_f32 arr index =
     (case interp_factor_f32 index of (t, i1, i2) \<Rightarrow>
        (case tf_index arr i1 of Inl e \<Rightarrow> Inl e | Inr a1 \<Rightarrow>
        (case tf_index arr i2 of Inl e \<Rightarrow> Inl e | Inr a2 \<Rightarrow>
           broadcast (\<lambda>x y. Inr (fadd x y)) (map (fmul t) a1) (map (fmul (fsub (Finite 1) t)) a2))))"

section \<open>Elementwise operators and shapes\<close>

lemma sequence_r_map_Inr:
  "(\<And>x. x \<in> set xs \<Longrightarrow> g x = Inr (h x)) \<Longrightarrow> sequence_r (map g xs) = Inr (map h xs)"
  by (induction xs) simp_all

lemma ewise1_same:
  "length xs = length ys \<Longrightarrow> ewise1 f xs ys = Inr (map2 f xs ys)"
  unfolding ewise1_def broadcast_def
  by (simp add: sequence_r_map_Inr[where h = "\<lambda>(a, b). f a b"] split_def)

lemma ewise1_scalar:
  "ewise1 f xs [y] = Inr (map (\<lambda>x. f x y) xs)"
proof (cases "length xs = 1")
  case True
  then obtain x where "xs = [x]" by (cases xs) auto
  then show ?thesis by (simp add: ewise1_def broadcast_def)
next
  case False
  then show ?thesis
    by (simp add: ewise1_def broadcast_def sequence_r_map_Inr[where h = "\<lambda>x. f x y"])
qed

lemma ewise2_col:
  assumes "length A = length ws"
  shows "ewise2 f A (expand_dims_last ws) = Inr (map2 (\<lambda>row w. map (\<lambda>a. f a w) row) A ws)"
proof -
  have "sequence_r (map2 (ewise1 f) A (map (\<lambda>w. [w]) ws))
        = Inr (map (\<lambda>(row, c). map (\<lambda>a. f a (hd c)) row) (zip A (map (\<lambda>w. [w]) ws)))"
    by (rule sequence_r_map_Inr) (auto simp: ewise1_scalar dest!: set_zip_rightD)
  also have "map (\<lambda>(row, c). map (\<lambda>a. f a (hd c)) row) (zip A (map (\<lambda>w. [w]) ws))
        = map2 (\<lambda>row w. map (\<lambda>a. f a w) row) A ws"
    by (simp add: zip_map2 split_def)
  finally show ?thesis using assms
    by (simp add: ewise2_def broadcast_def expand_dims_last_def)
qed

lemma ewise2_same:
  assumes "length A = length B" "\<And>i. i < length A \<Longrightarrow> length (A ! i) = length (B ! i)"
  shows "ewise2 f A B = Inr (map2 (\<lambda>r s. map2 f r s) A B)"
proof -
  have "sequence_r (map (\<lambda>(r, s). ewise1 f r s) (zip A B)) = Inr (map (\<lambda>(r, s). map2 f r s) (zip A B))"
  proof (rule sequence_r_map_Inr)
    fix x assume "x \<in> set (zip A B)"
    then obtain i where "i < length A" "i < length B" "x = (A ! i, B ! i)"
      by (auto simp: set_zip)
    then show "(case x of (r, s) \<Rightarrow> ewise1 f r s) = Inr (case x of (r, s) \<Rightarrow> map2 f r s)"
      using assms(2) by (simp add: ewise1_same)
  qed
  then show ?thesis using assms(1) by (simp add: ewise2_def broadcast_def)
qed

lemma transpose_mat_row: "transpose_mat (expand_dims_first xs) = expand_dims_last xs"
  unfolding transpose_mat_def expand_dims_first_def expand_dims_last_def
  by (intro nth_equalityI) simp_all

lemma take_drop_tile:
  "i < n \<Longrightarrow> take (length e) (drop (i * length e) (concat (replicate n e))) = e"
proof (induction n arbitrary: i)
  case 0
  then show ?case by simp
next
  case (Suc n)
  show ?case
  proof (cases i)
    case 0
    then show ?thesis by simp
  next
    case (Suc j)
    with Suc.prems have "j < n" by simp
    from Suc.IH[OF this] show ?thesis using Suc by simp
  qed
qed

lemma reshape2_tile: "reshape2 (tile e n) (n, length e) = Inr (replicate n e)"
proof -
  have "map (\<lambda>i. take (length e) (drop (i * length e) (concat (replicate n e)))) [0..<n] = replicate n e"
    by (intro nth_equalityI) (simp_all add: take_drop_tile)
  then show ?thesis
    by (simp add: reshape2_def tile_def length_concat sum_list_replicate)
qed

lemma one_hot_nth: "j < n \<Longrightarrow> one_hot i n ! j = (if j = i then 1 else 0)"
  by (simp add: one_hot_def)

lemma length_one_hot: "length (one_hot i n) = n"
  by (simp add: one_hot_def)

lemma length_roll: "length (roll xs s) = length xs"
  by (simp add: roll_def)


lemma roll_source_right: "j < n \<Longrightarrow> nat ((int j - 1) mod int n) = (if j = 0 then n - 1 else j - 1)"
proof (cases "j = 0")
  case True
  assume "j < n"
  with True have "(int j - 1) mod int n = int n - 1" by (simp add: zmod_minus1)
  with True show ?thesis by simp
next
  case False
  assume "j < n"
  with False have "(int j - 1) mod int n = int j - 1" by (intro mod_pos_pos_trivial) simp_all
  with False show ?thesis by simp
qed

lemma roll_source_left: "j < n \<Longrightarrow> nat ((int j - (- 1)) mod int n) = (if j + 1 = n then 0 else j + 1)"
proof (cases "j + 1 = n")
  case True
  then have "int j - (- 1) = int n" by simp
  with True show ?thesis by simp
next
  case False
  assume "j < n"
  with False have "(int j + 1) mod int n = int j + 1" by (intro mod_pos_pos_trivial) simp_all
  with False show ?thesis by simp
qed

lemma roll_one_hot_push: "i < n \<Longrightarrow> roll (one_hot i n) 1 = one_hot (Suc i mod n) n"
proof (intro nth_equalityI)
  show "length (roll (one_hot i n) 1) = length (one_hot (Suc i mod n) n)"
    by (simp add: length_roll length_one_hot)
next
  fix j assume i: "i < n" and "j < length (roll (one_hot i n) 1)"
  then have j: "j < n" by (simp add: length_roll length_one_hot)
  have s: "Suc i mod n = (if Suc i = n then 0 else Suc i)" using i by (simp add: mod_Suc)
  have "roll (one_hot i n) 1 ! j = one_hot i n ! (if j = 0 then n - 1 else j - 1)"
    using j roll_source_right[OF j] by (simp add: roll_def length_one_hot)
  also have "\<dots> = (if (if j = 0 then n - 1 else j - 1) = i then 1 else 0)"
    using j by (intro one_hot_nth) auto
  also have "\<dots> = one_hot (Suc i mod n) n ! j"
    using i j s by (auto simp: one_hot_nth)
  finally show "roll (one_hot i n) 1 ! j = one_hot (Suc i mod n) n ! j" .
qed

lemma roll_one_hot_pop: "i < n \<Longrightarrow> roll (one_hot i n) (- 1) = one_hot ((i + n - 1) mod n) n"
proof (intro nth_equalityI)
  show "length (roll (one_hot i n) (- 1)) = length (one_hot ((i + n - 1) mod n) n)"
    by (simp add: length_roll length_one_hot)
next
  fix j assume i: "i < n" and "j < length (roll (one_hot i n) (- 1))"
  then have j: "j < n" by (simp add: length_roll length_one_hot)
  have s: "(i + n - 1) mod n = (if i = 0 then n - 1 else i - 1)"
  proof (cases "i = 0")
    case True
    with i show ?thesis by simp
  next
    case False
    then have "i + n - 1 = (i - 1) + n" by simp
    then have "(i + n - 1) mod n = (i - 1) mod n" by simp
    with False i show ?thesis by simp
  qed
  have "roll (one_hot i n) (- 1) ! j = one_hot i n ! (if j + 1 = n then 0 else j + 1)"
    using j roll_source_left[OF j] by (simp add: roll_def length_one_hot)
  also have "\<dots> = (if (if j + 1 = n then 0 else j + 1) = i then 1 else 0)"
    using j by (intro one_hot_nth) auto
  also have "\<dots> = one_hot ((i + n - 1) mod n) n ! j"
    using i j s by (auto simp: one_hot_nth)
  finally show "roll (one_hot i n) (- 1) ! j = one_hot ((i + n - 1) mod n) n ! j" .
qed

lemma has_shape_nth: "has_shape M n m \<Longrightarrow> i < n \<Longrightarrow> length (M ! i) = m"
  by (simp add: has_shape_def list_all_length)

lemma has_shape_shape2: "has_shape M n m \<Longrightarrow> 0 < n \<Longrightarrow> shape2 M = (n, m)"
  by (cases M) (auto simp: has_shape_def shape2_def)

lemma assign_index_vectored_weights:
  assumes B: "has_shape B n m" and w: "length w = n" and e: "length e = m" and n: "0 < n"
  shows "assign_index_vectored B w e =
         Inr (map2 (\<lambda>row x. map2 (\<lambda>a t. a * (1 - x) + t * x) row e) B w)"
proof -
  have len: "length B = n" using B by (simp add: has_shape_def)
  have neg: "map (map (\<lambda>x. 1 - x)) (expand_dims_last w) = expand_dims_last (map (\<lambda>x. 1 - x) w)"
    by (simp add: expand_dims_last_def)
  have kept: "ewise2 (*) B (expand_dims_last (map (\<lambda>x. 1 - x) w))
      = Inr (map2 (\<lambda>row x. map (\<lambda>a. a * x) row) B (map (\<lambda>x. 1 - x) w))"
    using len w by (intro ewise2_col) simp
  have written: "ewise2 (*) (replicate n e) (expand_dims_last w)
      = Inr (map2 (\<lambda>row x. map (\<lambda>a. a * x) row) (replicate n e) w)"
    using w by (intro ewise2_col) simp
  let ?K = "map2 (\<lambda>row x. map (\<lambda>a. a * x) row) B (map (\<lambda>x. 1 - x) w)"
  let ?W = "map2 (\<lambda>row x. map (\<lambda>a. a * x) row) (replicate n e) w"
  have sum: "ewise2 (+) ?K ?W = Inr (map2 (\<lambda>r s. map2 (+) r s) ?K ?W)"
    using len w e has_shape_nth[OF B] by (intro ewise2_same) simp_all
  have res: "map2 (\<lambda>r s. map2 (+) r s) ?K ?W
      = map2 (\<lambda>row x. map2 (\<lambda>a t. a * (1 - x) + t * x) row e) B w"
  proof (rule nth_equalityI)
    show "length (map2 (\<lambda>r s. map2 (+) r s) ?K ?W)
        = length (map2 (\<lambda>row x. map2 (\<lambda>a t. a * (1 - x) + t * x) row e) B w)"
      using len w by simp
  next
    fix r assume "r < length (map2 (\<lambda>r s. map2 (+) r s) ?K ?W)"
    then have r: "r < n" using len w by simp
    have "length (B ! r) = length e" using has_shape_nth[OF B r] e by simp
    then have "map2 (+) (map (\<lambda>a. a * (1 - w ! r)) (B ! r)) (map (\<lambda>a. a * (w ! r)) e)
        = map2 (\<lambda>a t. a * (1 - w ! r) + t * (w ! r)) (B ! r) e"
      by (intro nth_equalityI) simp_all
    then show "map2 (\<lambda>r s. map2 (+) r s) ?K ?W ! r
        = map2 (\<lambda>row x. map2 (\<lambda>a t. a * (1 - x) + t * x) row e) B w ! r"
      using r len w by simp
  qed
  show ?thesis
    unfolding assign_index_vectored_def
    using has_shape_shape2[OF B n] e reshape2_tile[of e n]
    by (simp add: transpose_mat_row neg kept written sum res)
qed

lemma assign_index_vectored_one_hot:
  assumes B: "has_shape B n m" and e: "length e = m" and i: "i < n"
  shows "assign_index_vectored B (one_hot i n) e = Inr (B[i := e])"
proof -
  have len: "length B = n" using B by (simp add: has_shape_def)
  have "map2 (\<lambda>row x. map2 (\<lambda>a t. a * (1 - x) + t * x) row e) B (one_hot i n) = B[i := e]"
  proof (rule nth_equalityI)
    show "length (map2 (\<lambda>row x. map2 (\<lambda>a t. a * (1 - x) + t * x) row e) B (one_hot i n)) = length (B[i := e])"
      using len by (simp add: length_one_hot)
  next
    fix r assume "r < length (map2 (\<lambda>row x. map2 (\<lambda>a t. a * (1 - x) + t * x) row e) B (one_hot i n))"
    then have r: "r < n" using len by (simp add: length_one_hot)
    have le: "length (B ! r) = length e" using has_shape_nth[OF B r] e by simp
    have a: "map2 (\<lambda>a t. a * (1 - 1) + t * 1) (B ! r) e = e"
      using le by (intro nth_equalityI) simp_all
    have b: "map2 (\<lambda>a t. a * (1 - 0) + t * 0) (B ! r) e = B ! r"
      using le by (intro nth_equalityI) simp_all
    show "map2 (\<lambda>row x. map2 (\<lambda>a t. a * (1 - x) + t * x) row e) B (one_hot i n) ! r = B[i := e] ! r"
      using r len a b by (auto simp: length_one_hot one_hot_nth nth_list_update)
  qed
  with assign_index_vectored_weights[OF B length_one_hot e] i show ?thesis by simp
qed


lemma sum_list_one_hot:
  fixes f :: "nat \<Rightarrow> real"
  assumes "i < n"
  shows "(\<Sum>r\<leftarrow>[0..<n]. f r * (if r = i then 1 else 0)) = f i"
proof -
  have "(\<Sum>r\<leftarrow>[0..<n]. f r * (if r = i then 1 else 0))
      = (\<Sum>r\<in>{0..<n}. f r * (if r = i then 1 else 0))"
    by (simp add: interv_sum_list_conv_sum_set_nat)
  also have "\<dots> = (\<Sum>r\<in>{0..<n}. if r = i then f r else 0)"
    by (intro sum.cong) auto
  also have "\<dots> = f i" using assms by simp
  finally show ?thesis .
qed

lemma superposition_lookup_vectored_weights:
  assumes "length w = length B"
  shows "superposition_lookup_vectored B w =
         Inr (reduce_sum0 (map2 (\<lambda>row x. map (\<lambda>a. a * x) row) B w))"
  using assms by (simp add: superposition_lookup_vectored_def ewise2_col)

lemma reduce_sum0_one_hot:
  assumes B: "has_shape B n m" and i: "i < n"
  shows "reduce_sum0 (map2 (\<lambda>row x. map (\<lambda>a. a * x) row) B (one_hot i n)) = B ! i"
proof -
  let ?M = "map2 (\<lambda>row x. map (\<lambda>a. a * x) row) B (one_hot i n)"
  have len: "length B = n" using B by (simp add: has_shape_def)
  have lenM: "length ?M = n" using len by (simp add: length_one_hot)
  have row: "?M ! r = map (\<lambda>a. a * (if r = i then 1 else 0)) (B ! r)" if "r < n" for r
    using that len by (simp add: length_one_hot one_hot_nth)
  have ne: "?M \<noteq> []" using lenM i by auto
  have "hd ?M = ?M ! 0" using ne by (simp add: hd_conv_nth)
  then have hd: "length (hd ?M) = m" using row[of 0] i has_shape_nth[OF B, of 0] by simp
  have col: "sum_list (map (\<lambda>row. row ! j) ?M) = B ! i ! j" if j: "j < m" for j
  proof -
    have "map (\<lambda>row. row ! j) ?M = map (\<lambda>r. B ! r ! j * (if r = i then 1 else 0)) [0..<n]"
    proof (rule nth_equalityI)
      show "length (map (\<lambda>row. row ! j) ?M)
          = length (map (\<lambda>r. B ! r ! j * (if r = i then 1 else 0)) [0..<n])"
        using lenM by simp
    next
      fix r assume "r < length (map (\<lambda>row. row ! j) ?M)"
      then have r: "r < n" using len by (simp add: length_one_hot)
      then have "map (\<lambda>row. row ! j) ?M ! r = ?M ! r ! j" using lenM by simp
      also have "\<dots> = B ! r ! j * (if r = i then 1 else 0)"
        using row[OF r] has_shape_nth[OF B r] j by simp
      finally show "map (\<lambda>row. row ! j) ?M ! r
          = map (\<lambda>r. B ! r ! j * (if r = i then 1 else 0)) [0..<n] ! r"
        using r by simp
    qed
    then show ?thesis using sum_list_one_hot[OF i, of "\<lambda>r. B ! r ! j"] by simp
  qed
  have "map (\<lambda>j. sum_list (map (\<lambda>row. row ! j) ?M)) [0..<m] = B ! i"
    using has_shape_nth[OF B i] col by (intro nth_equalityI) simp_all
  then show ?thesis using ne hd by (simp add: reduce_sum0_def)
qed

lemma stack_push_one_hot:
  assumes "has_shape B n m" "length e = m" "i < n"
  shows "stack_push (B, one_hot i n) e = Inr (B[i := e], one_hot (Suc i mod n) n)"
  using assms by (simp add: stack_push_def assign_index_vectored_one_hot roll_one_hot_push)

lemma stack_pop_one_hot:
  assumes B: "has_shape B n m" and i: "i < n"
  shows "stack_pop (B, one_hot i n) =
         Inr ((B, one_hot ((i + n - 1) mod n) n), B ! ((i + n - 1) mod n))"
proof -
  have len: "length B = n" using B by (simp add: has_shape_def)
  have "(i + n - 1) mod n < n" using i by simp
  from reduce_sum0_one_hot[OF B this] show ?thesis
    using i len
    by (simp add: stack_pop_def roll_one_hot_pop superposition_lookup_vectored_weights
        length_one_hot)
qed

lemma has_shape_update:
  "has_shape B n m \<Longrightarrow> length e = m \<Longrightarrow> has_shape (B[i := e]) n m"
  by (auto simp: has_shape_def list_all_iff dest!: set_update_subset_insert[THEN subsetD])

section \<open>Pop and peek\<close>

text \<open>
  C9: \<open>stack_pop\<close> returns the buffer it was given (the popped slot is not
  cleared) and the index rolled by \<open>-1\<close>; \<open>stack_peek\<close> returns exactly the
  element that \<open>stack_pop\<close> returns (and fails exactly when it fails), and,
  being a function of the state that returns the element only, changes neither
  the buffer nor the index. On every state whose index has as many entries as the
  buffer has rows the pop succeeds.
\<close>

theorem stack_pop_keeps_buffer_peek_agrees:
  "stack_peek s = map_sum id snd (stack_pop s) \<and>
   (\<forall>s' e. stack_pop s = Inr (s', e) \<longrightarrow> fst s' = fst s \<and> snd s' = roll (snd s) (- 1)) \<and>
   (length (snd s) = length (fst s) \<longrightarrow> (\<exists>s' e. stack_pop s = Inr (s', e)))"
proof (intro conjI allI impI)
  show "stack_peek s = map_sum id snd (stack_pop s)"
    by (cases s) (simp add: stack_peek_def stack_pop_def Let_def split: sum.splits)
next
  fix s' e assume "stack_pop s = Inr (s', e)"
  then show "fst s' = fst s" "snd s' = roll (snd s) (- 1)"
    by (cases s; auto simp: stack_pop_def Let_def split: sum.splits)+
next
  assume "length (snd s) = length (fst s)"
  then show "\<exists>s' e. stack_pop s = Inr (s', e)"
    by (cases s) (simp add: stack_pop_def Let_def superposition_lookup_vectored_weights length_roll)
qed

theorem stack_pop_keeps_buffer_peek_agrees_witness:
  "stack_peek ([[1, 1, 1], [2, 2, 2], [3, 3, 3]], [1, 0, 0]) = Inr [3, 3, 3] \<and>
   stack_pop ([[1, 1, 1], [2, 2, 2], [3, 3, 3]], [1, 0, 0]) =
     Inr (([[1, 1, 1], [2, 2, 2], [3, 3, 3]], [0, 0, 1]), [3, 3, 3])"
proof -
  let ?s = "([[1, 1, 1], [2, 2, 2], [3, 3, 3]], [1, 0, 0]) :: stack"
  have pop: "stack_pop ?s = Inr (([[1, 1, 1], [2, 2, 2], [3, 3, 3]], [0, 0, 1]), [3, 3, 3])"
    by code_simp
  from stack_pop_keeps_buffer_peek_agrees[of ?s]
  have "stack_peek ?s = map_sum id snd (stack_pop ?s)" by blast
  with pop show ?thesis by simp
qed

section \<open>Sequences of pushes and pops\<close>








lemma push_loop_position:
  assumes "has_shape B n m" "i < n" "list_all (\<lambda>e. length e = m) es"
  shows "\<exists>B'. has_shape B' n m \<and>
           push_loop (B, one_hot i n) es = Inr (B', one_hot ((i + length es) mod n) n)"
  using assms
proof (induction es arbitrary: B i)
  case Nil
  then show ?case by auto
next
  case (Cons e es)
  then have e: "length e = m" and es: "list_all (\<lambda>e. length e = m) es" by simp_all
  have push: "stack_push (B, one_hot i n) e = Inr (B[i := e], one_hot (Suc i mod n) n)"
    using stack_push_one_hot[OF Cons.prems(1) e Cons.prems(2)] .
  have "Suc i mod n < n" using Cons.prems(2) by simp
  from Cons.IH[OF has_shape_update[OF Cons.prems(1) e] this es]
  obtain B' where B': "has_shape B' n m"
    "push_loop (B[i := e], one_hot (Suc i mod n) n) es =
       Inr (B', one_hot ((Suc i mod n + length es) mod n) n)"
    by blast
  have "(Suc i mod n + length es) mod n = (i + length (e # es)) mod n"
    by (simp add: mod_add_left_eq)
  with B' push show ?case by auto
qed

section \<open>The position vector\<close>

text \<open>
  C8: \<open>stack_push\<close> replaces the index by \<open>roll index 1\<close>, a cyclic rotation.
  On a buffer of shape \<open>[n, m]\<close> with the index one-hot at \<open>i < n\<close>, the index
  after a push is one-hot at \<open>(i + 1) mod n\<close> and the index after a pop is one-hot
  at \<open>(i - 1) mod n\<close>; a push at the last slot \<open>n - 1\<close> succeeds and moves the
  index to slot \<open>0\<close>; after exactly \<open>n\<close> pushes the index is the one the pushes
  started from.
\<close>

theorem push_rotates_position:
  assumes "has_shape B n m" "i < n" "length e = m"
    and "list_all (\<lambda>e. length e = m) es" "length es = n"
  shows "(\<forall>w s'. stack_push (B, w) e = Inr s' \<longrightarrow> snd s' = roll w 1) \<and>
         (\<exists>B'. stack_push (B, one_hot i n) e = Inr (B', one_hot (Suc i mod n) n)) \<and>
         (\<exists>e'. stack_pop (B, one_hot i n) = Inr ((B, one_hot ((i + n - 1) mod n) n), e')) \<and>
         (\<exists>B'. stack_push (B, one_hot (n - 1) n) e = Inr (B', one_hot 0 n)) \<and>
         (\<exists>B'. push_loop (B, one_hot i n) es = Inr (B', one_hot i n))"
proof (intro conjI allI impI)
  fix w s' assume "stack_push (B, w) e = Inr s'"
  then show "snd s' = roll w 1"
    by (auto simp: stack_push_def split: sum.splits)
next
  show "\<exists>B'. stack_push (B, one_hot i n) e = Inr (B', one_hot (Suc i mod n) n)"
    using stack_push_one_hot[OF assms(1,3,2)] by blast
next
  show "\<exists>e'. stack_pop (B, one_hot i n) = Inr ((B, one_hot ((i + n - 1) mod n) n), e')"
    using stack_pop_one_hot[OF assms(1,2)] by blast
next
  have "n - 1 < n" "Suc (n - 1) mod n = 0" using assms(2) by simp_all
  then show "\<exists>B'. stack_push (B, one_hot (n - 1) n) e = Inr (B', one_hot 0 n)"
    using stack_push_one_hot[OF assms(1,3), of "n - 1"] by auto
next
  from push_loop_position[OF assms(1,2,4)] assms(2,5)
  show "\<exists>B'. push_loop (B, one_hot i n) es = Inr (B', one_hot i n)" by auto
qed

theorem push_rotates_position_witness:
  "stack_push ([[7], [8], [9]], [0, 0, 1]) [5] = Inr ([[7], [8], [5]], [1, 0, 0]) \<and>
   (\<exists>e'. stack_pop ([[7], [8], [9]], [0, 0, 1]) = Inr (([[7], [8], [9]], [0, 1, 0]), e')) \<and>
   (\<exists>B'. push_loop ([[7], [8], [9]], [0, 0, 1]) [[1], [2], [3]] = Inr (B', [0, 0, 1]))"
proof -
  have oh: "one_hot 2 3 = [0, 0, 1]" "one_hot 1 3 = [0, 1, 0]" by code_simp+
  have "has_shape [[7], [8], [9]] 3 1" "(2::nat) < 3" "length [5::real] = 1"
    "list_all (\<lambda>e. length e = 1) [[1], [2], [3::real]]" "length [[1], [2], [3::real]] = 3"
    by (simp_all add: has_shape_def)
  from push_rotates_position[OF this] oh
  have "(\<exists>e'. stack_pop ([[7], [8], [9]], [0, 0, 1]) = Inr (([[7], [8], [9]], [0, 1, 0]), e'))"
    "(\<exists>B'. push_loop ([[7], [8], [9]], [0, 0, 1]) [[1], [2], [3]] = Inr (B', [0, 0, 1]))"
    by simp_all
  moreover have "stack_push ([[7], [8], [9]], [0, 0, 1]) [5] = Inr ([[7], [8], [5]], [1, 0, 0])"
    by code_simp
  ultimately show ?thesis by blast
qed

section \<open>Reversing a list with two stacks\<close>



section \<open>Push followed by pop\<close>




section \<open>Interpolation\<close>

lemma cast_int32_of_int:
  "cast_int32 (real_of_int z) = (if - (2 ^ 31) \<le> z \<and> z < 2 ^ 31 then z else - (2 ^ 31))"
  by (simp add: cast_int32_def Let_def)




lemma convex_between:
  fixes a b t :: real
  assumes "0 \<le> t" "t \<le> 1"
  shows "min a b \<le> t * a + (1 - t) * b \<and> t * a + (1 - t) * b \<le> max a b"
proof -
  have e1: "t * a + (1 - t) * b = a + (1 - t) * (b - a)" by algebra
  have e2: "t * a + (1 - t) * b = b - t * (b - a)" by algebra
  show ?thesis
  proof (cases "a \<le> b")
    case True
    then have "0 \<le> (1 - t) * (b - a)" "0 \<le> t * (b - a)" using assms by simp_all
    with e1 e2 True show ?thesis by (simp add: min_def max_def)
  next
    case False
    then have "0 \<le> (1 - t) * (a - b)" "0 \<le> t * (a - b)" using assms by simp_all
    then have "(1 - t) * (b - a) \<le> 0" "t * (b - a) \<le> 0" by (simp_all add: algebra_simps)
    with e1 e2 False show ?thesis by (simp add: min_def max_def)
  qed
qed

lemma tf_index_in_range: "0 \<le> i \<Longrightarrow> i < int (length arr) \<Longrightarrow> tf_index arr i = Inr (arr ! nat i)"
  by (simp add: tf_index_def)

lemma position_in_range:
  assumes "0 \<le> p" "p \<le> real n - 1"
  shows "0 \<le> \<lfloor>p\<rfloor>" "\<lfloor>p\<rfloor> < int n" "0 \<le> \<lceil>p\<rceil>" "\<lceil>p\<rceil> < int n"
    "nat \<lfloor>p\<rfloor> < n" "nat \<lceil>p\<rceil> < n"
proof -
  show f0: "0 \<le> \<lfloor>p\<rfloor>" using assms(1) by simp
  have "p \<le> real_of_int (int n - 1)" using assms(2) by simp
  then have c: "\<lceil>p\<rceil> \<le> int n - 1" by (simp only: ceiling_le_iff)
  then show cn: "\<lceil>p\<rceil> < int n" by linarith
  have "\<lfloor>p\<rfloor> \<le> \<lceil>p\<rceil>" by (rule floor_le_ceiling)
  with c show fn: "\<lfloor>p\<rfloor> < int n" by linarith
  from f0 \<open>\<lfloor>p\<rfloor> \<le> \<lceil>p\<rceil>\<close> show c0: "0 \<le> \<lceil>p\<rceil>" by linarith
  from f0 fn show "nat \<lfloor>p\<rfloor> < n" by linarith
  from c0 cn show "nat \<lceil>p\<rceil> < n" by linarith
qed

lemma cast_position:
  assumes "0 \<le> p" "p \<le> real n - 1" "n \<le> 2 ^ 31"
  shows "cast_int32 (real_of_int \<lfloor>p\<rfloor>) = \<lfloor>p\<rfloor>" "cast_int32 (real_of_int \<lceil>p\<rceil>) = \<lceil>p\<rceil>"
proof -
  note r = position_in_range[OF assms(1,2)]
  have n: "int n \<le> 2 ^ 31" using assms(3) by (metis of_nat_le_iff of_nat_numeral of_nat_power)
  have "- (2 ^ 31) \<le> \<lfloor>p\<rfloor> \<and> \<lfloor>p\<rfloor> < 2 ^ 31" using r(1,2) n by linarith
  then show "cast_int32 (real_of_int \<lfloor>p\<rfloor>) = \<lfloor>p\<rfloor>" by (simp only: cast_int32_of_int simp_thms if_True)
  have "- (2 ^ 31) \<le> \<lceil>p\<rceil> \<and> \<lceil>p\<rceil> < 2 ^ 31" using r(3,4) n by linarith
  then show "cast_int32 (real_of_int \<lceil>p\<rceil>) = \<lceil>p\<rceil>" by (simp only: cast_int32_of_int simp_thms if_True)
qed


section \<open>Rounding to float32\<close>

lemma pow2_powi: "pow2 k = 2 powi k"
  by (simp add: pow2_def power_int_def power_one_over inverse_eq_divide)

lemma pow2_pos: "0 < pow2 k"
  by (simp add: pow2_powi)

lemma pow2_pred: "pow2 (k - 1) = pow2 k / 2"
  by (simp add: pow2_powi power_int_diff)

lemma pow2_succ: "pow2 (k + 1) = 2 * pow2 k"
  by (simp add: pow2_powi power_int_add)

lemma ilog2_fuel_up: "1 \<le> x \<Longrightarrow> 0 \<le> ilog2_fuel n x \<and> pow2 (ilog2_fuel n x) \<le> x"
proof (induction n arbitrary: x)
  case 0
  then show ?case by (simp add: pow2_def)
next
  case (Suc n)
  show ?case
  proof (cases "2 \<le> x")
    case True
    then have "1 \<le> x / 2" by simp
    from Suc.IH[OF this] True Suc.prems show ?thesis by (simp add: pow2_succ)
  next
    case False
    with Suc.prems show ?thesis by (simp add: pow2_def)
  qed
qed

lemma ilog2_fuel_down:
  "0 < x \<Longrightarrow> x < 1 \<Longrightarrow> - int n < ilog2_fuel n x \<Longrightarrow> pow2 (ilog2_fuel n x) \<le> x"
proof (induction n arbitrary: x)
  case 0
  then show ?case by simp
next
  case (Suc n)
  have k: "ilog2_fuel (Suc n) x = ilog2_fuel n (2 * x) - 1" using Suc.prems by simp
  have "pow2 (ilog2_fuel n (2 * x)) \<le> 2 * x"
  proof (cases "2 * x < 1")
    case True
    have "- int n < ilog2_fuel n (2 * x)" using Suc.prems(3) k by simp
    with Suc.IH[of "2 * x"] True Suc.prems(1) show ?thesis by simp
  next
    case False
    then have "1 \<le> 2 * x" by simp
    from ilog2_fuel_up[OF this] show ?thesis by simp
  qed
  then show ?case unfolding k pow2_pred by simp
qed

lemma ilog2_fuel_small: "x < 2 \<Longrightarrow> ilog2_fuel n x \<le> 0"
proof (induction n arbitrary: x)
  case 0
  then show ?case by simp
next
  case (Suc n)
  show ?case
  proof (cases "x < 1")
    case True
    then have "2 * x < 2" by simp
    from Suc.IH[OF this] True show ?thesis by simp
  next
    case False
    with Suc.prems show ?thesis by simp
  qed
qed

lemma round_half_even_cases:
  "round_half_even y = \<lfloor>y\<rfloor> \<and> y - real_of_int \<lfloor>y\<rfloor> \<le> 1 / 2 \<or>
   round_half_even y = \<lfloor>y\<rfloor> + 1 \<and> 1 / 2 \<le> y - real_of_int \<lfloor>y\<rfloor>"
  by (auto simp: round_half_even_def Let_def)

lemma round_half_even_error: "\<bar>real_of_int (round_half_even y) - y\<bar> \<le> 1 / 2"
proof -
  have "real_of_int \<lfloor>y\<rfloor> \<le> y" "y < real_of_int \<lfloor>y\<rfloor> + 1" by linarith+
  with round_half_even_cases[of y] show ?thesis by auto
qed

lemma round_half_even_nonneg: "0 \<le> y \<Longrightarrow> 0 \<le> round_half_even y"
proof -
  assume "0 \<le> y"
  then have "0 \<le> \<lfloor>y\<rfloor>" by simp
  with round_half_even_cases[of y] show ?thesis by auto
qed

lemma round_half_even_le: "y \<le> real_of_int N \<Longrightarrow> round_half_even y \<le> N"
proof -
  assume y: "y \<le> real_of_int N"
  then have f: "\<lfloor>y\<rfloor> \<le> N" by (simp add: floor_le_iff)
  show ?thesis
  proof (cases "round_half_even y = \<lfloor>y\<rfloor>")
    case True
    with f show ?thesis by simp
  next
    case False
    with round_half_even_cases[of y] have r: "round_half_even y = \<lfloor>y\<rfloor> + 1"
      "1 / 2 \<le> y - real_of_int \<lfloor>y\<rfloor>" by auto
    then have "real_of_int \<lfloor>y\<rfloor> < real_of_int N" using y by linarith
    then have "\<lfloor>y\<rfloor> < N" by simp
    with r show ?thesis by simp
  qed
qed



lemma pow2_neg: "k \<le> 0 \<Longrightarrow> pow2 k = 1 / 2 ^ nat (- k)"
  by (cases "k = 0") (simp_all add: pow2_def)

lemma f32_round_unit:
  assumes "0 \<le> x" "x \<le> 1"
  shows "\<exists>y. f32_round x = Finite y \<and> 0 \<le> y \<and> y \<le> 1"
proof (cases "x = 0")
  case True
  then show ?thesis by (simp add: f32_round_def)
next
  case False
  define e where "e = max (- 126) (ilog2_fuel 128 \<bar>x\<bar>)"
  define d where "d = nat (23 - e)"
  define m where "m = round_half_even (x / pow2 (e - 23))"
  have "ilog2_fuel 128 \<bar>x\<bar> \<le> 0" using assms by (intro ilog2_fuel_small) simp
  then have e: "e \<le> 0" by (simp add: e_def)
  then have q: "pow2 (e - 23) = 1 / 2 ^ d" unfolding d_def by (subst pow2_neg) simp_all
  have xq: "x / pow2 (e - 23) = x * 2 ^ d" by (simp add: q)
  have m0: "0 \<le> m" unfolding m_def xq using assms(1) by (intro round_half_even_nonneg) simp
  have "x * 2 ^ d \<le> real_of_int (2 ^ d)" using assms(2) by simp
  then have m1: "m \<le> 2 ^ d" unfolding m_def xq by (rule round_half_even_le)
  let ?r = "real_of_int m * pow2 (e - 23)"
  have r0: "0 \<le> ?r" using m0 pow2_pos[of "e - 23"] by simp
  have "real_of_int m \<le> 2 ^ d" using m1 by (metis of_int_le_iff of_int_numeral of_int_power)
  then have r1: "?r \<le> 1" by (simp add: q field_simps)
  have "\<bar>?r\<bar> < 2 ^ 128" using r0 r1 by simp
  then have "f32_round x = Finite ?r"
    using False by (simp add: f32_round_def Let_def e_def m_def)
  with r0 r1 show ?thesis by blast
qed

lemma f32_round_error:
  "\<exists>r. \<bar>r - x\<bar> \<le> \<bar>x\<bar> / 2 ^ 24 + 1 / 2 ^ 150 \<and>
       f32_round x = (if 2 ^ 128 \<le> \<bar>r\<bar> then (if 0 < x then PosInf else NegInf) else Finite r)"
proof (cases "x = 0")
  case True
  then show ?thesis by (intro exI[of _ 0]) (simp add: f32_round_def)
next
  case False
  define k where "k = ilog2_fuel 128 \<bar>x\<bar>"
  define e where "e = max (- 126) k"
  define q where "q = pow2 (e - 23)"
  define m where "m = round_half_even (x / q)"
  let ?r = "real_of_int m * q"
  have qpos: "0 < q" by (simp add: q_def pow2_pos)
  have "?r - x = q * (real_of_int m - x / q)" using qpos by (simp add: field_simps)
  then have "\<bar>?r - x\<bar> = q * \<bar>real_of_int m - x / q\<bar>" using qpos by (simp add: abs_mult)
  also have "\<dots> \<le> q * (1 / 2)"
    unfolding m_def using qpos round_half_even_error[of "x / q"] by (intro mult_left_mono) simp_all
  finally have err: "\<bar>?r - x\<bar> \<le> q / 2" by simp
  have "q / 2 \<le> \<bar>x\<bar> / 2 ^ 24 + 1 / 2 ^ 150"
  proof (cases "- 126 \<le> k")
    case True
    then have ek: "e = k" by (simp add: e_def)
    have "pow2 k \<le> \<bar>x\<bar>"
    proof (cases "1 \<le> \<bar>x\<bar>")
      case True
      from ilog2_fuel_up[OF this] show ?thesis by (simp add: k_def)
    next
      case False
      then have "\<bar>x\<bar> < 1" "0 < \<bar>x\<bar>" using \<open>x \<noteq> 0\<close> by simp_all
      moreover have "- int 128 < ilog2_fuel 128 \<bar>x\<bar>" using True by (simp add: k_def)
      ultimately show ?thesis unfolding k_def by (intro ilog2_fuel_down)
    qed
    moreover have "q = pow2 k / 2 ^ 23" by (simp add: q_def ek pow2_powi power_int_diff)
    ultimately have "q / 2 \<le> \<bar>x\<bar> / 2 ^ 24" by simp
    then show ?thesis by simp
  next
    case False
    then have "e = - 126" by (simp add: e_def)
    then have "q = 1 / 2 ^ 149" by (simp add: q_def pow2_def)
    then show ?thesis by simp
  qed
  with err have "\<bar>?r - x\<bar> \<le> \<bar>x\<bar> / 2 ^ 24 + 1 / 2 ^ 150" by linarith
  moreover have "f32_round x =
      (if 2 ^ 128 \<le> \<bar>?r\<bar> then (if 0 < x then PosInf else NegInf) else Finite ?r)"
    using False by (simp add: f32_round_def Let_def k_def e_def q_def m_def)
  ultimately show ?thesis by blast
qed

lemma f32_round_finite:
  assumes "\<bar>x\<bar> \<le> 2 ^ 127"
  shows "\<exists>r. f32_round x = Finite r \<and> \<bar>r - x\<bar> \<le> \<bar>x\<bar> / 2 ^ 24 + 1 / 2 ^ 150"
proof -
  from f32_round_error[of x] obtain r where r: "\<bar>r - x\<bar> \<le> \<bar>x\<bar> / 2 ^ 24 + 1 / 2 ^ 150"
    "f32_round x = (if 2 ^ 128 \<le> \<bar>r\<bar> then (if 0 < x then PosInf else NegInf) else Finite r)"
    by blast
  have "\<bar>r\<bar> \<le> \<bar>x\<bar> + \<bar>r - x\<bar>" by linarith
  also have "\<dots> \<le> 2 ^ 127 + (2 ^ 127 / 2 ^ 24 + 1 / 2 ^ 150)" using r(1) assms by simp
  also have "\<dots> < (2 ^ 128 :: real)" by simp
  finally have "\<bar>r\<bar> < 2 ^ 128" .
  with r show ?thesis by auto
qed


lemma f32_round_zero: "f32_round 0 = Finite 0"
  by (simp add: f32_round_def)

lemma f32_round_one: "f32_round 1 = Finite 1"
  by code_simp

lemma fsub_finite: "fsub (Finite x) (Finite y) = f32_round (x - y)"
  by (simp add: fsub_def)

lemma interp_factor_f32_value:
  "\<exists>t. interp_factor_f32 (Finite p) =
         (Finite t, cast_int32 (real_of_int \<lfloor>p\<rfloor>), cast_int32 (real_of_int \<lceil>p\<rceil>)) \<and>
       0 \<le> t \<and> t \<le> 1 \<and> (p = real_of_int \<lfloor>p\<rfloor> \<longrightarrow> t = 0)"
proof (cases "p = real_of_int \<lfloor>p\<rfloor>")
  case True
  then have c: "\<lceil>p\<rceil> = \<lfloor>p\<rfloor>" by (metis ceiling_of_int)
  have "fsub (Finite (real_of_int \<lceil>p\<rceil>)) (Finite (real_of_int \<lfloor>p\<rfloor>)) = Finite 0"
    by (simp add: fsub_finite c f32_round_zero)
  then have "interp_factor_f32 (Finite p) =
      (Finite 0, cast_int32 (real_of_int \<lfloor>p\<rfloor>), cast_int32 (real_of_int \<lceil>p\<rceil>))"
    by (simp add: interp_factor_f32_def Let_def divide_no_nan_f32_def)
  then show ?thesis by simp
next
  case False
  have "real_of_int \<lfloor>p\<rfloor> \<le> p" by simp
  then have f: "0 \<le> p - real_of_int \<lfloor>p\<rfloor>" "p - real_of_int \<lfloor>p\<rfloor> \<le> 1" by linarith+
  have c: "\<lceil>p\<rceil> = \<lfloor>p\<rfloor> + 1"
    using False by (metis ceiling_altdef of_int_floor_cancel)
  from f32_round_unit[OF f] obtain y where y: "f32_round (p - real_of_int \<lfloor>p\<rfloor>) = Finite y"
    "0 \<le> y" "y \<le> 1" by blast
  from f32_round_unit[OF y(2,3)] obtain t where t: "f32_round y = Finite t" "0 \<le> t" "t \<le> 1"
    by blast
  have den: "f32_round (real_of_int \<lceil>p\<rceil> - real_of_int \<lfloor>p\<rfloor>) = Finite 1"
    by (simp add: c f32_round_one)
  have "interp_factor_f32 (Finite p) =
      (Finite t, cast_int32 (real_of_int \<lfloor>p\<rfloor>), cast_int32 (real_of_int \<lceil>p\<rceil>))"
    by (simp add: interp_factor_f32_def Let_def divide_no_nan_f32_def den fsub_finite y(1) t(1))
  with t False show ?thesis by blast
qed

lemma blend_f32_error:
  assumes t: "0 \<le> t" "t \<le> 1" and a: "\<bar>a\<bar> \<le> 2 ^ 125" and b: "\<bar>b\<bar> \<le> 2 ^ 125"
  shows "\<exists>r. fadd (fmul (Finite t) (Finite a)) (fmul (fsub (Finite 1) (Finite t)) (Finite b)) = Finite r \<and>
             \<bar>r - (t * a + (1 - t) * b)\<bar> \<le> max \<bar>a\<bar> \<bar>b\<bar> / 2 ^ 21 + 1 / 2 ^ 147"
proof -
  define M where "M = max \<bar>a\<bar> \<bar>b\<bar>"
  define E where "E = M / 2 ^ 24 + 1 / 2 ^ 150"
  define D :: real where "D = 1 / 2 ^ 24 + 1 / 2 ^ 150"
  have M: "\<bar>a\<bar> \<le> M" "\<bar>b\<bar> \<le> M" "M \<le> 2 ^ 125" "0 \<le> M" using a b by (simp_all add: M_def)
  have E: "0 \<le> E" "E \<le> 2 ^ 101 + 1" using M(3,4) by (simp_all add: E_def)
  have mono: "x / 2 ^ 24 + 1 / 2 ^ 150 \<le> y / 2 ^ 24 + 1 / 2 ^ 150" if "x \<le> y" for x y :: real
    using that by (simp add: divide_right_mono)
  have ta: "\<bar>t * a\<bar> \<le> M"
  proof -
    have "\<bar>t * a\<bar> = t * \<bar>a\<bar>" using t by (simp add: abs_mult)
    also have "\<dots> \<le> 1 * M" using t M by (intro mult_mono) simp_all
    finally show ?thesis by simp
  qed
  then have "\<bar>t * a\<bar> \<le> 2 ^ 127" using M(3) by simp
  from f32_round_finite[OF this] obtain r1 where r1: "f32_round (t * a) = Finite r1"
    "\<bar>r1 - t * a\<bar> \<le> \<bar>t * a\<bar> / 2 ^ 24 + 1 / 2 ^ 150" by blast
  have e1: "\<bar>r1 - t * a\<bar> \<le> E" unfolding E_def using r1(2) mono[OF ta] by (rule order_trans)
  have u: "0 \<le> 1 - t" "1 - t \<le> 1" using t by simp_all
  from f32_round_unit[OF u] obtain c where c: "f32_round (1 - t) = Finite c" "0 \<le> c" "c \<le> 1"
    by blast
  have u1: "\<bar>1 - t\<bar> \<le> 1" using u by simp
  then have "\<bar>1 - t\<bar> \<le> 2 ^ 127" by simp
  from f32_round_finite[OF this] c(1) have "\<bar>c - (1 - t)\<bar> \<le> \<bar>1 - t\<bar> / 2 ^ 24 + 1 / 2 ^ 150"
    by simp
  then have ec: "\<bar>c - (1 - t)\<bar> \<le> D" unfolding D_def using mono[OF u1] by (rule order_trans)
  have cb: "\<bar>c * b\<bar> \<le> M"
  proof -
    have "\<bar>c * b\<bar> = c * \<bar>b\<bar>" using c by (simp add: abs_mult)
    also have "\<dots> \<le> 1 * M" using c M by (intro mult_mono) simp_all
    finally show ?thesis by simp
  qed
  then have "\<bar>c * b\<bar> \<le> 2 ^ 127" using M(3) by simp
  from f32_round_finite[OF this] obtain r2 where r2: "f32_round (c * b) = Finite r2"
    "\<bar>r2 - c * b\<bar> \<le> \<bar>c * b\<bar> / 2 ^ 24 + 1 / 2 ^ 150" by blast
  have e2: "\<bar>r2 - c * b\<bar> \<le> E" unfolding E_def using r2(2) mono[OF cb] by (rule order_trans)
  have "\<bar>r1 + r2\<bar> \<le> \<bar>r1 - t * a\<bar> + \<bar>t * a\<bar> + (\<bar>r2 - c * b\<bar> + \<bar>c * b\<bar>)" by linarith
  with e1 e2 ta cb have s: "\<bar>r1 + r2\<bar> \<le> 2 * M + 2 * E" by linarith
  then have "\<bar>r1 + r2\<bar> \<le> 2 ^ 127" using M(3) E(2) by simp
  from f32_round_finite[OF this] obtain r where r: "f32_round (r1 + r2) = Finite r"
    "\<bar>r - (r1 + r2)\<bar> \<le> \<bar>r1 + r2\<bar> / 2 ^ 24 + 1 / 2 ^ 150" by blast
  have e3: "\<bar>r - (r1 + r2)\<bar> \<le> (2 * M + 2 * E) / 2 ^ 24 + 1 / 2 ^ 150"
    using r(2) mono[OF s] by (rule order_trans)
  have e4: "\<bar>(c - (1 - t)) * b\<bar> \<le> D * M"
  proof -
    have "0 \<le> D" by (simp add: D_def)
    have "\<bar>(c - (1 - t)) * b\<bar> = \<bar>c - (1 - t)\<bar> * \<bar>b\<bar>" by (simp add: abs_mult)
    also have "\<dots> \<le> D * M" using ec M \<open>0 \<le> D\<close> by (intro mult_mono) simp_all
    finally show ?thesis .
  qed
  have split: "r - (t * a + (1 - t) * b) =
      (r - (r1 + r2)) + (r1 - t * a) + (r2 - c * b) + (c - (1 - t)) * b"
    by (simp add: algebra_simps)
  have "\<bar>r - (t * a + (1 - t) * b)\<bar> \<le>
      \<bar>r - (r1 + r2)\<bar> + \<bar>r1 - t * a\<bar> + \<bar>r2 - c * b\<bar> + \<bar>(c - (1 - t)) * b\<bar>"
    unfolding split by linarith
  with e1 e2 e3 e4 have "\<bar>r - (t * a + (1 - t) * b)\<bar> \<le>
      ((2 * M + 2 * E) / 2 ^ 24 + 1 / 2 ^ 150) + E + E + D * M" by linarith
  also have "\<dots> \<le> M / 2 ^ 21 + 1 / 2 ^ 147"
    unfolding E_def D_def using M(4) by (simp add: field_simps)
  finally have "\<bar>r - (t * a + (1 - t) * b)\<bar> \<le> M / 2 ^ 21 + 1 / 2 ^ 147" .
  moreover have "fadd (fmul (Finite t) (Finite a)) (fmul (fsub (Finite 1) (Finite t)) (Finite b)) = Finite r"
    by (simp add: fsub_finite c(1) r1(1) r2(1) r(1))
  ultimately show ?thesis unfolding M_def by blast
qed


lemma broadcast_same:
  "length xs = length ys \<Longrightarrow> broadcast (\<lambda>a b. Inr (f a b)) xs ys = Inr (map2 f xs ys)"
  unfolding broadcast_def
  by (simp add: sequence_r_map_Inr[where h = "\<lambda>(a, b). f a b"] split_def)

lemma linear_lookup_f32_expr:
  assumes "0 \<le> p" "p \<le> real (length A) - 1" "length A \<le> 2 ^ 31"
    and "fst (interp_factor_f32 (Finite p)) = Finite t"
  shows "linear_lookup_f32 (map Finite A) (Finite p) =
         Inr (fadd (fmul (Finite t) (Finite (A ! nat \<lfloor>p\<rfloor>)))
                   (fmul (fsub (Finite 1) (Finite t)) (Finite (A ! nat \<lceil>p\<rceil>))))"
proof -
  note r = position_in_range[OF assms(1,2)]
  from interp_factor_f32_value[of p] assms(4)
  have eq: "interp_factor_f32 (Finite p) = (Finite t, \<lfloor>p\<rfloor>, \<lceil>p\<rceil>)"
    by (auto simp: cast_position[OF assms(1,2,3)])
  show ?thesis
    unfolding linear_lookup_f32_def eq using r by (simp add: tf_index_in_range)
qed

lemma linear_lookup_rank2_f32_expr:
  assumes "0 \<le> p" "p \<le> real n - 1" "n \<le> 2 ^ 31"
    and "length M = n" "list_all (\<lambda>row. length row = m) M"
    and "fst (interp_factor_f32 (Finite p)) = Finite t"
  shows "linear_lookup_rank2_f32 (map (map Finite) M) (Finite p) =
         Inr (map2 (\<lambda>a b. fadd (fmul (Finite t) (Finite a)) (fmul (fsub (Finite 1) (Finite t)) (Finite b)))
                (M ! nat \<lfloor>p\<rfloor>) (M ! nat \<lceil>p\<rceil>))"
proof -
  note r = position_in_range[OF assms(1,2)]
  from interp_factor_f32_value[of p] assms(6)
  have eq: "interp_factor_f32 (Finite p) = (Finite t, \<lfloor>p\<rfloor>, \<lceil>p\<rceil>)"
    by (auto simp: cast_position[OF assms(1,2,3)])
  have l: "length (M ! nat \<lfloor>p\<rfloor>) = m" "length (M ! nat \<lceil>p\<rceil>) = m"
    using assms(4,5) r(5,6) by (simp_all add: list_all_length)
  let ?T = "Finite t" and ?C = "fsub (Finite 1) (Finite t)"
  have "broadcast (\<lambda>x y. Inr (fadd x y)) (map (fmul ?T) (map Finite (M ! nat \<lfloor>p\<rfloor>)))
          (map (fmul ?C) (map Finite (M ! nat \<lceil>p\<rceil>))) =
        Inr (map2 fadd (map (fmul ?T) (map Finite (M ! nat \<lfloor>p\<rfloor>)))
          (map (fmul ?C) (map Finite (M ! nat \<lceil>p\<rceil>))))"
    using l by (intro broadcast_same) simp
  moreover have "map2 fadd (map (fmul ?T) (map Finite (M ! nat \<lfloor>p\<rfloor>)))
          (map (fmul ?C) (map Finite (M ! nat \<lceil>p\<rceil>))) =
        map2 (\<lambda>a b. fadd (fmul ?T (Finite a)) (fmul ?C (Finite b))) (M ! nat \<lfloor>p\<rfloor>) (M ! nat \<lceil>p\<rceil>)"
    using l by (intro nth_equalityI) simp_all
  ultimately show ?thesis
    unfolding linear_lookup_rank2_f32_def eq using r assms(4) by (simp add: tf_index_in_range)
qed

lemma blend_f32_integral:
  "is_f32 a \<Longrightarrow> fadd (fmul (Finite 0) (Finite b)) (fmul (fsub (Finite 1) (Finite 0)) (Finite a)) = Finite a"
  by (simp add: fsub_finite f32_round_zero f32_round_one is_f32_def)

lemma blend_f32_between:
  assumes "0 \<le> t" "t \<le> 1" "\<bar>a\<bar> \<le> 2 ^ 125" "\<bar>b\<bar> \<le> 2 ^ 125"
  shows "\<exists>r. fadd (fmul (Finite t) (Finite a)) (fmul (fsub (Finite 1) (Finite t)) (Finite b)) = Finite r \<and>
             min a b - (max \<bar>a\<bar> \<bar>b\<bar> / 2 ^ 21 + 1 / 2 ^ 147) \<le> r \<and>
             r \<le> max a b + (max \<bar>a\<bar> \<bar>b\<bar> / 2 ^ 21 + 1 / 2 ^ 147)"
proof -
  from blend_f32_error[OF assms] obtain r where
    r: "fadd (fmul (Finite t) (Finite a)) (fmul (fsub (Finite 1) (Finite t)) (Finite b)) = Finite r"
      "\<bar>r - (t * a + (1 - t) * b)\<bar> \<le> max \<bar>a\<bar> \<bar>b\<bar> / 2 ^ 21 + 1 / 2 ^ 147" by blast
  from convex_between[OF assms(1,2), of a b] r(2)
  have "min a b - (max \<bar>a\<bar> \<bar>b\<bar> / 2 ^ 21 + 1 / 2 ^ 147) \<le> r"
    "r \<le> max a b + (max \<bar>a\<bar> \<bar>b\<bar> / 2 ^ 21 + 1 / 2 ^ 147)" by linarith+
  with r(1) show ?thesis by blast
qed

text \<open>
  C5, as the code has it: for every array \<open>A\<close> of float32 values with at most
  \<open>2^31\<close> rows and every position \<open>p\<close> in \<open>[0, len(A) - 1]\<close>, the
  interpolation factor \<open>t\<close> of \<open>interp_factor\<close> is a finite number in
  \<open>[0, 1]\<close> and \<open>linear_lookup(A, p)\<close> returns a value. Where the two
  entries \<open>A[floor p]\<close> and \<open>A[ceil p]\<close> have magnitude at most \<open>2^125\<close>,
  the value is finite and lies between them up to the rounding error
  \<open>max(|A[floor p]|, |A[ceil p]|) / 2^21 + 2^-147\<close>, componentwise on a rank-2
  array \<open>M\<close> of \<open>n\<close> rows of length \<open>m\<close>. When \<open>p\<close> is integral, the
  unguarded quotient is \<open>0 / 0 = NaN\<close>, the guarded division gives
  \<open>t = 0\<close>, and \<open>linear_lookup(A, p)\<close> is \<open>A[p]\<close> exactly.
\<close>

theorem linear_lookup_f32_between:
  assumes "0 \<le> p" "p \<le> real (length A) - 1" "length A \<le> 2 ^ 31" "list_all is_f32 A"
    and "length M = n" "p \<le> real n - 1" "n \<le> 2 ^ 31"
    and "list_all (\<lambda>row. length row = m) M" "list_all (list_all is_f32) M"
  shows "\<exists>t. fst (interp_factor_f32 (Finite p)) = Finite t \<and> 0 \<le> t \<and> t \<le> 1 \<and>
           (\<exists>v. linear_lookup_f32 (map Finite A) (Finite p) = Inr v \<and>
              (\<bar>A ! nat \<lfloor>p\<rfloor>\<bar> \<le> 2 ^ 125 \<and> \<bar>A ! nat \<lceil>p\<rceil>\<bar> \<le> 2 ^ 125 \<longrightarrow>
                 (\<exists>r. v = Finite r \<and>
                    min (A ! nat \<lfloor>p\<rfloor>) (A ! nat \<lceil>p\<rceil>)
                      - (max \<bar>A ! nat \<lfloor>p\<rfloor>\<bar> \<bar>A ! nat \<lceil>p\<rceil>\<bar> / 2 ^ 21 + 1 / 2 ^ 147) \<le> r \<and>
                    r \<le> max (A ! nat \<lfloor>p\<rfloor>) (A ! nat \<lceil>p\<rceil>)
                      + (max \<bar>A ! nat \<lfloor>p\<rfloor>\<bar> \<bar>A ! nat \<lceil>p\<rceil>\<bar> / 2 ^ 21 + 1 / 2 ^ 147)))) \<and>
           (\<exists>vs. linear_lookup_rank2_f32 (map (map Finite) M) (Finite p) = Inr vs \<and> length vs = m \<and>
              (\<forall>c<m. \<bar>M ! nat \<lfloor>p\<rfloor> ! c\<bar> \<le> 2 ^ 125 \<and> \<bar>M ! nat \<lceil>p\<rceil> ! c\<bar> \<le> 2 ^ 125 \<longrightarrow>
                 (\<exists>r. vs ! c = Finite r \<and>
                    min (M ! nat \<lfloor>p\<rfloor> ! c) (M ! nat \<lceil>p\<rceil> ! c)
                      - (max \<bar>M ! nat \<lfloor>p\<rfloor> ! c\<bar> \<bar>M ! nat \<lceil>p\<rceil> ! c\<bar> / 2 ^ 21 + 1 / 2 ^ 147) \<le> r \<and>
                    r \<le> max (M ! nat \<lfloor>p\<rfloor> ! c) (M ! nat \<lceil>p\<rceil> ! c)
                      + (max \<bar>M ! nat \<lfloor>p\<rfloor> ! c\<bar> \<bar>M ! nat \<lceil>p\<rceil> ! c\<bar> / 2 ^ 21 + 1 / 2 ^ 147)))) \<and>
           (p = real_of_int \<lfloor>p\<rfloor> \<longrightarrow>
              t = 0 \<and>
              fdiv (fsub (Finite p) (f32_floor (Finite p)))
                   (fsub (f32_ceil (Finite p)) (f32_floor (Finite p))) = NaN \<and>
              linear_lookup_f32 (map Finite A) (Finite p) = Inr (Finite (A ! nat \<lfloor>p\<rfloor>)) \<and>
              linear_lookup_rank2_f32 (map (map Finite) M) (Finite p) = Inr (map Finite (M ! nat \<lfloor>p\<rfloor>)))"
proof -
  from interp_factor_f32_value[of p] obtain t where
    t: "fst (interp_factor_f32 (Finite p)) = Finite t" "0 \<le> t" "t \<le> 1"
      "p = real_of_int \<lfloor>p\<rfloor> \<longrightarrow> t = 0"
    by auto
  let ?a1 = "A ! nat \<lfloor>p\<rfloor>" and ?a2 = "A ! nat \<lceil>p\<rceil>"
  let ?r1 = "M ! nat \<lfloor>p\<rfloor>" and ?r2 = "M ! nat \<lceil>p\<rceil>"
  let ?blend = "\<lambda>a b. fadd (fmul (Finite t) (Finite a)) (fmul (fsub (Finite 1) (Finite t)) (Finite b))"
  note rA = position_in_range[OF assms(1,2)]
  note rM = position_in_range[OF assms(1,6)]
  have one: "linear_lookup_f32 (map Finite A) (Finite p) = Inr (?blend ?a1 ?a2)"
    using linear_lookup_f32_expr[OF assms(1,2,3) t(1)] .
  have two: "linear_lookup_rank2_f32 (map (map Finite) M) (Finite p) = Inr (map2 ?blend ?r1 ?r2)"
    using linear_lookup_rank2_f32_expr[OF assms(1,6,7,5,8) t(1)] .
  have l: "length ?r1 = m" "length ?r2 = m"
    using assms(5,8) rM(5,6) by (simp_all add: list_all_length)
  have c1: "\<exists>v. linear_lookup_f32 (map Finite A) (Finite p) = Inr v \<and>
              (\<bar>?a1\<bar> \<le> 2 ^ 125 \<and> \<bar>?a2\<bar> \<le> 2 ^ 125 \<longrightarrow>
                 (\<exists>r. v = Finite r \<and>
                    min ?a1 ?a2 - (max \<bar>?a1\<bar> \<bar>?a2\<bar> / 2 ^ 21 + 1 / 2 ^ 147) \<le> r \<and>
                    r \<le> max ?a1 ?a2 + (max \<bar>?a1\<bar> \<bar>?a2\<bar> / 2 ^ 21 + 1 / 2 ^ 147)))"
    using one blend_f32_between[OF t(2,3), of ?a1 ?a2] by simp
  have c2: "\<exists>vs. linear_lookup_rank2_f32 (map (map Finite) M) (Finite p) = Inr vs \<and> length vs = m \<and>
              (\<forall>c<m. \<bar>?r1 ! c\<bar> \<le> 2 ^ 125 \<and> \<bar>?r2 ! c\<bar> \<le> 2 ^ 125 \<longrightarrow>
                 (\<exists>r. vs ! c = Finite r \<and>
                    min (?r1 ! c) (?r2 ! c) - (max \<bar>?r1 ! c\<bar> \<bar>?r2 ! c\<bar> / 2 ^ 21 + 1 / 2 ^ 147) \<le> r \<and>
                    r \<le> max (?r1 ! c) (?r2 ! c) + (max \<bar>?r1 ! c\<bar> \<bar>?r2 ! c\<bar> / 2 ^ 21 + 1 / 2 ^ 147)))"
  proof (rule exI[of _ "map2 ?blend ?r1 ?r2"], intro conjI allI impI)
    show "linear_lookup_rank2_f32 (map (map Finite) M) (Finite p) = Inr (map2 ?blend ?r1 ?r2)"
      by (rule two)
    show "length (map2 ?blend ?r1 ?r2) = m" using l by simp
  next
    fix c assume c: "c < m" and b: "\<bar>?r1 ! c\<bar> \<le> 2 ^ 125 \<and> \<bar>?r2 ! c\<bar> \<le> 2 ^ 125"
    have "map2 ?blend ?r1 ?r2 ! c = ?blend (?r1 ! c) (?r2 ! c)" using c l by simp
    with blend_f32_between[OF t(2,3), of "?r1 ! c" "?r2 ! c"] b
    show "\<exists>r. map2 ?blend ?r1 ?r2 ! c = Finite r \<and>
            min (?r1 ! c) (?r2 ! c) - (max \<bar>?r1 ! c\<bar> \<bar>?r2 ! c\<bar> / 2 ^ 21 + 1 / 2 ^ 147) \<le> r \<and>
            r \<le> max (?r1 ! c) (?r2 ! c) + (max \<bar>?r1 ! c\<bar> \<bar>?r2 ! c\<bar> / 2 ^ 21 + 1 / 2 ^ 147)"
      by simp
  qed
  have c3: "t = 0 \<and>
      fdiv (fsub (Finite p) (f32_floor (Finite p)))
           (fsub (f32_ceil (Finite p)) (f32_floor (Finite p))) = NaN \<and>
      linear_lookup_f32 (map Finite A) (Finite p) = Inr (Finite ?a1) \<and>
      linear_lookup_rank2_f32 (map (map Finite) M) (Finite p) = Inr (map Finite ?r1)"
    if int: "p = real_of_int \<lfloor>p\<rfloor>"
  proof -
    have t0: "t = 0" using t(4) int by simp
    have ce: "\<lceil>p\<rceil> = \<lfloor>p\<rfloor>" using int by (metis ceiling_of_int)
    have "p - real_of_int \<lfloor>p\<rfloor> = 0" using int by simp
    then have nan: "fdiv (fsub (Finite p) (f32_floor (Finite p)))
           (fsub (f32_ceil (Finite p)) (f32_floor (Finite p))) = NaN"
      by (simp add: fsub_finite ce f32_round_zero)
    have "is_f32 ?a1" using assms(4) rA(5) by (simp add: list_all_length)
    then have v1: "?blend ?a1 ?a1 = Finite ?a1" unfolding t0 by (rule blend_f32_integral)
    have rows: "list_all is_f32 ?r1" using assms(5,9) rM(5) by (simp add: list_all_length)
    have "map2 ?blend ?r1 ?r1 = map Finite ?r1"
    proof (rule nth_equalityI)
      show "length (map2 ?blend ?r1 ?r1) = length (map Finite ?r1)" by simp
    next
      fix c assume "c < length (map2 ?blend ?r1 ?r1)"
      then have c: "c < length ?r1" by simp
      then have "is_f32 (?r1 ! c)" using rows by (simp add: list_all_length)
      then have "?blend (?r1 ! c) (?r1 ! c) = Finite (?r1 ! c)"
        unfolding t0 by (rule blend_f32_integral)
      then show "map2 ?blend ?r1 ?r1 ! c = map Finite ?r1 ! c" using c by simp
    qed
    with one two v1 t0 nan show ?thesis by (simp add: ce)
  qed
  show ?thesis
    by (intro exI[of _ t] conjI impI t(1,2,3) c1 c2) (use c3 in blast)+
qed

theorem linear_lookup_f32_between_witness:
  "linear_lookup_f32 (map Finite [1, 2, 3, 4, 5]) (Finite 2) = Inr (Finite 3) \<and>
   linear_lookup_rank2_f32 (map (map Finite) [[1, 10], [2, 20], [3, 30]]) (Finite 2) = Inr [Finite 3, Finite 30] \<and>
   linear_lookup_f32 (map Finite [1, 2, 3, 4, 5]) (Finite (3 / 2)) = Inr (Finite (5 / 2)) \<and>
   fst (interp_factor_f32 (Finite 2)) = Finite 0"
proof -
  have f: "\<lfloor>2 :: real\<rfloor> = 2" by simp
  have h: "(0::real) \<le> 2" "(2::real) \<le> real (length [1, 2, 3, 4, 5 :: real]) - 1"
    "length [1, 2, 3, 4, 5 :: real] \<le> 2 ^ 31"
    "length [[1, 10], [2, 20], [3, 30 :: real]] = 3" "(2::real) \<le> real (3::nat) - 1" "(3::nat) \<le> 2 ^ 31"
    "list_all (\<lambda>row. length row = 2) [[1, 10], [2, 20], [3, 30 :: real]]"
    by simp_all
  have i1: "list_all is_f32 [1, 2, 3, 4, 5]" by code_simp
  have i2: "list_all (list_all is_f32) [[1, 10], [2, 20], [3, 30]]" by code_simp
  have e: "linear_lookup_f32 (map Finite [1, 2, 3, 4, 5]) (Finite (3 / 2)) = Inr (Finite (5 / 2))"
    by code_simp
  from linear_lookup_f32_between[OF h(1,2,3) i1 h(4,5,6,7) i2]
  obtain t where "fst (interp_factor_f32 (Finite 2)) = Finite t" "t = 0"
    "linear_lookup_f32 (map Finite [1, 2, 3, 4, 5]) (Finite 2) = Inr (Finite ([1, 2, 3, 4, 5] ! nat \<lfloor>2 :: real\<rfloor>))"
    "linear_lookup_rank2_f32 (map (map Finite) [[1, 10], [2, 20], [3, 30]]) (Finite 2) =
       Inr (map Finite ([[1, 10], [2, 20], [3, 30]] ! nat \<lfloor>2 :: real\<rfloor>))"
    by auto
  with e show ?thesis by (simp add: f)
qed

text \<open>
  C5, as stated, has the value between the two entries. In float32 the rounding
  of the two products can leave that interval: with both entries and the position
  equal to the float32 nearest to 0.1, which is \<open>13421773 / 2^27\<close>, the factor
  is \<open>13421773 / 2^27\<close>, its complement \<open>7549747 / 2^23\<close>, and the result
  \<open>13421772 / 2^27\<close> is below both entries.
\<close>

theorem linear_lookup_f32_rounding_counterexample:
  "is_f32 (13421773 / 134217728) \<and>
   linear_lookup_f32 [Finite (13421773 / 134217728), Finite (13421773 / 134217728)]
     (Finite (13421773 / 134217728)) = Inr (Finite (13421772 / 134217728)) \<and>
   (13421772 / 134217728 :: real) < min (13421773 / 134217728) (13421773 / 134217728)"
  by code_simp

section \<open>Bandwidth-limited index vectors\<close>









section \<open>Superposition lookup\<close>








section \<open>Two-dimensional lookup\<close>

text \<open>
  C7: with one-hot indices every cell but the addressed one is multiplied by \<open>0\<close>,
  and the maximum over the two indexed axes is taken over those zeros too. A
  negative stored value is therefore read back as \<open>0\<close>: the cell \<open>[-1, 2]\<close> comes
  back as \<open>[0, 2]\<close>. On the array of the notebook, whose entries are positive,
  the cell is recovered.
\<close>

theorem tensor_lookup_2d_negative_value:
  "tensor_lookup_2d [[[- 1, 2], [3, 4]], [[5, 6], [7, 8]]] (one_hot 0 2) (one_hot 0 2) = Inr [0, 2] \<and>
   [[[- 1, 2], [3, 4]], [[5, 6], [7, 8 :: real]]] ! 0 ! 0 = [- 1, 2] \<and>
   tensor_lookup_2d [[[- 1, 2], [3, 4]], [[5, 6], [7, 8]]] (one_hot 0 2) (one_hot 0 2) \<noteq>
     Inr ([[[- 1, 2], [3, 4]], [[5, 6], [7, 8]]] ! 0 ! 0) \<and>
   tensor_lookup_2d [[[1, 1], [1, 11], [1, 111]], [[2, 2], [2, 22], [2, 222]], [[3, 3], [3, 33], [3, 333]]]
     (one_hot 1 3) (one_hot 2 3) = Inr [2, 222]"
  by code_simp

section \<open>Asymmetrical vectored lookup\<close>

lemma first_index_spec:
  "\<exists>x\<in>set xs. P x \<Longrightarrow>
   first_index P xs < length xs \<and> P (xs ! first_index P xs) \<and>
   (\<forall>c<first_index P xs. \<not> P (xs ! c))"
proof (induction xs)
  case Nil
  then show ?case by simp
next
  case (Cons x xs)
  show ?case
  proof (cases "P x")
    case True
    then show ?thesis by (simp add: first_index_def)
  next
    case False
    with Cons.prems have "\<exists>x\<in>set xs. P x" by simp
    from Cons.IH[OF this] False show ?thesis
      by (auto simp: first_index_def nth_Cons split: nat.splits)
  qed
qed

lemma argmax_spec:
  assumes "xs \<noteq> []"
  shows "argmax xs = Inr (first_index (\<lambda>x. x = Max (set xs)) xs)"
    and "first_index (\<lambda>x. x = Max (set xs)) xs < length xs"
    and "\<forall>c<length xs. xs ! c \<le> xs ! first_index (\<lambda>x. x = Max (set xs)) xs"
    and "\<forall>c<first_index (\<lambda>x. x = Max (set xs)) xs. xs ! c < xs ! first_index (\<lambda>x. x = Max (set xs)) xs"
proof -
  let ?a = "first_index (\<lambda>x. x = Max (set xs)) xs"
  have "Max (set xs) \<in> set xs" using assms by (intro Max_in) simp_all
  then have "\<exists>x\<in>set xs. x = Max (set xs)" by blast
  from first_index_spec[OF this]
  have a: "?a < length xs" "xs ! ?a = Max (set xs)" "\<forall>c<?a. xs ! c \<noteq> Max (set xs)" by simp_all
  have le: "xs ! c \<le> Max (set xs)" if "c < length xs" for c
    using that by (intro Max_ge) simp_all
  show "argmax xs = Inr ?a" using assms by (simp add: argmax_def)
  show "?a < length xs" by (rule a(1))
  show "\<forall>c<length xs. xs ! c \<le> xs ! ?a" using le a(2) by simp
  show "\<forall>c<?a. xs ! c < xs ! ?a"
  proof (intro allI impI)
    fix c assume c: "c < ?a"
    then have "xs ! c \<noteq> Max (set xs)" using a(3) by simp
    moreover have "xs ! c \<le> Max (set xs)" using c a(1) by (intro le) simp
    ultimately show "xs ! c < xs ! ?a" using a(2) by simp
  qed
qed

lemma argmin_spec:
  assumes "xs \<noteq> []"
  shows "argmin xs = Inr (first_index (\<lambda>x. x = Min (set xs)) xs)"
    and "first_index (\<lambda>x. x = Min (set xs)) xs < length xs"
    and "\<forall>c<length xs. xs ! first_index (\<lambda>x. x = Min (set xs)) xs \<le> xs ! c"
proof -
  let ?a = "first_index (\<lambda>x. x = Min (set xs)) xs"
  have "Min (set xs) \<in> set xs" using assms by (intro Min_in) simp_all
  then have "\<exists>x\<in>set xs. x = Min (set xs)" by blast
  from first_index_spec[OF this]
  have a: "?a < length xs" "xs ! ?a = Min (set xs)" by simp_all
  have le: "Min (set xs) \<le> xs ! c" if "c < length xs" for c
    using that by (intro Min_le) simp_all
  show "argmin xs = Inr ?a" using assms by (simp add: argmin_def)
  show "?a < length xs" by (rule a(1))
  show "\<forall>c<length xs. xs ! ?a \<le> xs ! c" using le a(2) by simp
qed

lemma ewise1_scalar_left:
  "ewise1 f [x] ys = Inr (map (\<lambda>y. f x y) ys)"
proof (cases "length ys = 1")
  case True
  then obtain y where "ys = [y]" by (cases ys) auto
  then show ?thesis by (simp add: ewise1_def broadcast_def)
next
  case False
  then show ?thesis
    by (auto simp: ewise1_def broadcast_def sequence_r_map_Inr[where h = "\<lambda>y. f x y"])
qed

lemma ewise2_col_left:
  assumes "length ws = length A"
  shows "ewise2 f (expand_dims_last ws) A = Inr (map2 (\<lambda>w row. map (\<lambda>a. f w a) row) ws A)"
proof -
  have "sequence_r (map2 (ewise1 f) (map (\<lambda>w. [w]) ws) A)
        = Inr (map (\<lambda>(c, row). map (\<lambda>a. f (hd c) a) row) (zip (map (\<lambda>w. [w]) ws) A))"
    by (rule sequence_r_map_Inr) (auto simp: ewise1_scalar_left dest!: set_zip_leftD)
  also have "map (\<lambda>(c, row). map (\<lambda>a. f (hd c) a) row) (zip (map (\<lambda>w. [w]) ws) A)
        = map2 (\<lambda>w row. map (\<lambda>a. f w a) row) ws A"
    by (simp add: zip_map1 split_def)
  finally show ?thesis using assms
    by (simp add: ewise2_def broadcast_def expand_dims_last_def)
qed

lemma has_shape_row_nonempty: "has_shape M n m \<Longrightarrow> 0 < m \<Longrightarrow> row \<in> set M \<Longrightarrow> row \<noteq> []"
  by (auto simp: has_shape_def list_all_iff)

lemma asymmetrical_vectored_lookup_value:
  assumes v: "has_shape v R C" and k: "has_shape k R C" and C: "0 < C"
  shows "asymmetrical_vectored_lookup v k =
         Inr (map (\<lambda>r. v ! r ! first_index (\<lambda>x. x = Max (set (k ! r))) (k ! r)) [0..<R])"
proof -
  let ?am = "\<lambda>row. first_index (\<lambda>x. x = Max (set row)) row"
  have lk: "length k = R" and lv: "length v = R" using v k by (simp_all add: has_shape_def)
  have b: "sequence_r (map argmax k) = Inr (map ?am k)"
    using has_shape_row_nonempty[OF k C] by (intro sequence_r_map_Inr) (simp add: argmax_spec(1))
  let ?idx = "zip [0..<length (map ?am k)] (map ?am k)"
  have "gather_nd v ?idx = Inr (map (\<lambda>(a, b). v ! a ! b) ?idx)"
    unfolding gather_nd_def
  proof (rule sequence_r_map_Inr)
    fix x assume "x \<in> set ?idx"
    then obtain r where r: "r < R" "x = (r, ?am (k ! r))"
      using lk by (auto simp: set_zip)
    have "k ! r \<noteq> []" using has_shape_nth[OF k r(1)] C by auto
    from argmax_spec(2)[OF this] have "?am (k ! r) < C" using has_shape_nth[OF k r(1)] by simp
    then show "(case x of (a, b) \<Rightarrow>
            if a < length v \<and> b < length (v ! a) then Inr (v ! a ! b) else Inl InvalidArgument)
          = Inr (case x of (a, b) \<Rightarrow> v ! a ! b)"
      using r lv has_shape_nth[OF v r(1)] by simp
  qed
  moreover have "map (\<lambda>(a, b). v ! a ! b) ?idx = map (\<lambda>r. v ! r ! ?am (k ! r)) [0..<R]"
    using lk by (intro nth_equalityI) simp_all
  ultimately show ?thesis using b by (simp add: asymmetrical_vectored_lookup_def)
qed


lemma k_grad_rows:
  assumes "length dn = R"
  shows "ewise2 (-) (map (map (\<lambda>x. 2 * x)) (map (\<lambda>d. one_hot d C) dn)) (replicate R (replicate C 1)) =
         Inr (map (\<lambda>d. map (\<lambda>c. if c = d then 1 else - 1) [0..<C]) dn)"
proof -
  let ?E = "map (map (\<lambda>x. 2 * x)) (map (\<lambda>d. one_hot d C) dn)"
  let ?O = "replicate R (replicate C (1::real))"
  have "ewise2 (-) ?E ?O = Inr (map2 (\<lambda>r s. map2 (-) r s) ?E ?O)"
    using assms by (intro ewise2_same) (simp_all add: length_one_hot)
  moreover have "map2 (\<lambda>r s. map2 (-) r s) ?E ?O =
      map (\<lambda>d. map (\<lambda>c. if c = d then 1 else - 1) [0..<C]) dn"
  proof (rule nth_equalityI)
    show "length (map2 (\<lambda>r s. map2 (-) r s) ?E ?O) =
        length (map (\<lambda>d. map (\<lambda>c. if c = d then 1 else - 1) [0..<C]) dn)"
      using assms by simp
  next
    fix r assume "r < length (map2 (\<lambda>r s. map2 (-) r s) ?E ?O)"
    then have r: "r < R" using assms by simp
    have "map2 (-) (map (\<lambda>x. 2 * x) (one_hot (dn ! r) C)) (replicate C (1::real)) =
        map (\<lambda>c. if c = dn ! r then 1 else - 1) [0..<C]"
      by (intro nth_equalityI) (simp_all add: length_one_hot one_hot_nth)
    then show "map2 (\<lambda>r s. map2 (-) r s) ?E ?O ! r =
        map (\<lambda>d. map (\<lambda>c. if c = d then 1 else - 1) [0..<C]) dn ! r"
      using r assms by simp
  qed
  ultimately show ?thesis by simp
qed

lemma grad_value:
  assumes v: "has_shape v R C" and k: "has_shape k R C" and C: "0 < C"
    and f: "length fwd = R" and g: "length g = R"
  shows "grad v k fwd g =
         Inr (map2 (\<lambda>u row. map (\<lambda>a. u * a) row) g k,
              map2 (\<lambda>u d. map (\<lambda>c. \<bar>u\<bar> * (if c = d then - 1 else 1)) [0..<C]) g
                (map (\<lambda>r. first_index
                        (\<lambda>x. x = Min (set (map (\<lambda>x. (x - (fwd ! r - g ! r))\<^sup>2) (v ! r))))
                        (map (\<lambda>x. (x - (fwd ! r - g ! r))\<^sup>2) (v ! r))) [0..<R]))"
proof (cases "R = 0")
  case True
  with v k f g have "v = []" "k = []" "fwd = []" "g = []" by (simp_all add: has_shape_def)
  then show ?thesis
    by (simp add: grad_def shape2_def ewise1_def ewise2_def broadcast_def expand_dims_last_def)
next
  case False
  then have R: "0 < R" by simp
  let ?an = "\<lambda>row. first_index (\<lambda>x. x = Min (set row)) row"
  let ?sq = "\<lambda>r. map (\<lambda>x. (x - (fwd ! r - g ! r))\<^sup>2) (v ! r)"
  let ?dn = "map (\<lambda>r. ?an (?sq r)) [0..<R]"
  have lk: "length k = R" and lv: "length v = R" using v k by (simp_all add: has_shape_def)
  have shp: "shape2 k = (R, C)" using has_shape_shape2[OF k R] .
  have target: "ewise1 (-) fwd g = Inr (map2 (-) fwd g)" using f g by (simp add: ewise1_same)
  have diff: "ewise2 (\<lambda>x y. (x - y)\<^sup>2) v (expand_dims_last (map2 (-) fwd g)) =
      Inr (map2 (\<lambda>row y. map (\<lambda>x. (x - y)\<^sup>2) row) v (map2 (-) fwd g))"
    using lv f g by (intro ewise2_col) simp
  have rows: "map2 (\<lambda>row y. map (\<lambda>x. (x - y)\<^sup>2) row) v (map2 (-) fwd g) = map ?sq [0..<R]"
    using lv f g by (intro nth_equalityI) simp_all
  have d_idx: "sequence_r (map argmin (map ?sq [0..<R])) = Inr ?dn"
  proof -
    have "sequence_r (map (\<lambda>r. argmin (?sq r)) [0..<R]) = Inr (map (\<lambda>r. ?an (?sq r)) [0..<R])"
    proof (rule sequence_r_map_Inr)
      fix r assume "r \<in> set [0..<R]"
      then have "r < R" by simp
      then have "?sq r \<noteq> []" using has_shape_nth[OF v] C by auto
      then show "argmin (?sq r) = Inr (?an (?sq r))" by (rule argmin_spec(1))
    qed
    then show ?thesis by (simp add: comp_def)
  qed
  have kg: "map (map uminus) (map (\<lambda>d. map (\<lambda>c. if c = d then 1 else - 1) [0..<C]) ?dn) =
      map (\<lambda>d. map (\<lambda>c. if c = d then - 1 else (1::real)) [0..<C]) ?dn"
    by (simp add: comp_def if_distrib cong: if_cong)
  have gv: "ewise2 (*) (expand_dims_last g) k = Inr (map2 (\<lambda>u row. map (\<lambda>a. u * a) row) g k)"
    using g lk by (intro ewise2_col_left) simp
  have ab: "map (map abs) (expand_dims_last g) = expand_dims_last (map abs g)"
    by (simp add: expand_dims_last_def)
  let ?KG = "map (\<lambda>d. map (\<lambda>c. if c = d then - 1 else (1::real)) [0..<C]) ?dn"
  have gk: "ewise2 (*) (expand_dims_last (map abs g)) ?KG =
      Inr (map2 (\<lambda>u row. map (\<lambda>a. u * a) row) (map abs g) ?KG)"
    using g by (intro ewise2_col_left) simp
  have fin: "map2 (\<lambda>u row. map (\<lambda>a. u * a) row) (map abs g) ?KG =
      map2 (\<lambda>u d. map (\<lambda>c. \<bar>u\<bar> * (if c = d then - 1 else 1)) [0..<C]) g ?dn"
    using g by (intro nth_equalityI) simp_all
  have kr: "ewise2 (-) (map (map (\<lambda>x. 2 * x)) (map (\<lambda>d. one_hot d C) ?dn)) (replicate R (replicate C 1)) =
         Inr (map (\<lambda>d. map (\<lambda>c. if c = d then 1 else - 1) [0..<C]) ?dn)"
    by (intro k_grad_rows) simp
  show ?thesis
    unfolding grad_def shp
    by (simp only: target diff rows d_idx kr kg gv ab gk fin Let_def sum.case prod.case)
qed


text \<open>
  C6: for \<open>v\<close> and \<open>k\<close> of one shape \<open>[R, C]\<close> with \<open>C > 0\<close> and an upstream
  gradient \<open>g\<close> of length \<open>R\<close>, the forward value of row \<open>r\<close> is the entry of
  \<open>v\<close> at the first column where \<open>k\<close> is maximal. The custom gradient returns,
  with respect to \<open>v\<close>, the entries \<open>g r * k r c\<close>, and with respect to \<open>k\<close>, in
  row \<open>r\<close>, \<open>|g r|\<close> times a vector that is \<open>-1\<close> at a column \<open>d\<close> whose value of
  \<open>v\<close> has the least squared difference to \<open>forward r - g r\<close>, and \<open>+1\<close> at every
  other column.
\<close>

theorem asymmetric_lookup_forward_backward:
  assumes "has_shape v R C" "has_shape k R C" "0 < C" "length g = R"
  shows "\<exists>fwd gv gk.
           asymmetrical_vectored_lookup v k = Inr fwd \<and> length fwd = R \<and>
           (\<forall>r<R. \<exists>a<C. fwd ! r = v ! r ! a \<and> (\<forall>c<C. k ! r ! c \<le> k ! r ! a) \<and>
                        (\<forall>c<a. k ! r ! c < k ! r ! a)) \<and>
           grad v k fwd g = Inr (gv, gk) \<and> length gv = R \<and> length gk = R \<and>
           (\<forall>r<R. length (gv ! r) = C \<and> (\<forall>c<C. gv ! r ! c = g ! r * k ! r ! c)) \<and>
           (\<forall>r<R. length (gk ! r) = C \<and>
                (\<exists>d<C. (\<forall>c<C. (v ! r ! d - (fwd ! r - g ! r))\<^sup>2 \<le> (v ! r ! c - (fwd ! r - g ! r))\<^sup>2) \<and>
                       (\<forall>c<C. gk ! r ! c = \<bar>g ! r\<bar> * (if c = d then - 1 else 1))))"
proof -
  let ?am = "\<lambda>r. first_index (\<lambda>x. x = Max (set (k ! r))) (k ! r)"
  let ?fwd = "map (\<lambda>r. v ! r ! ?am r) [0..<R]"
  let ?sq = "\<lambda>r. map (\<lambda>x. (x - (?fwd ! r - g ! r))\<^sup>2) (v ! r)"
  let ?d = "\<lambda>r. first_index (\<lambda>x. x = Min (set (?sq r))) (?sq r)"
  let ?gv = "map2 (\<lambda>u row. map (\<lambda>a. u * a) row) g k"
  let ?gk = "map2 (\<lambda>u d. map (\<lambda>c. \<bar>u\<bar> * (if c = d then - 1 else 1)) [0..<C]) g (map ?d [0..<R])"
  have lk: "length k = R" and lv: "length v = R"
    using assms(1,2) by (simp_all add: has_shape_def)
  have fw: "asymmetrical_vectored_lookup v k = Inr ?fwd"
    using asymmetrical_vectored_lookup_value[OF assms(1,2,3)] .
  have gr: "grad v k ?fwd g = Inr (?gv, ?gk)"
    using grad_value[OF assms(1,2,3) _ assms(4), of ?fwd] by simp
  have a: "\<exists>a<C. ?fwd ! r = v ! r ! a \<and> (\<forall>c<C. k ! r ! c \<le> k ! r ! a) \<and>
                (\<forall>c<a. k ! r ! c < k ! r ! a)" if r: "r < R" for r
  proof -
    have l: "length (k ! r) = C" using has_shape_nth[OF assms(2) r] .
    then have "k ! r \<noteq> []" using assms(3) by auto
    from argmax_spec(2,3,4)[OF this] l r show ?thesis by (intro exI[of _ "?am r"]) simp
  qed
  have b: "length (?gv ! r) = C \<and> (\<forall>c<C. ?gv ! r ! c = g ! r * k ! r ! c)" if r: "r < R" for r
    using r lk assms(4) has_shape_nth[OF assms(2) r] by simp
  have c: "length (?gk ! r) = C \<and>
        (\<exists>d<C. (\<forall>c<C. (v ! r ! d - (?fwd ! r - g ! r))\<^sup>2 \<le> (v ! r ! c - (?fwd ! r - g ! r))\<^sup>2) \<and>
               (\<forall>c<C. ?gk ! r ! c = \<bar>g ! r\<bar> * (if c = d then - 1 else 1)))" if r: "r < R" for r
  proof -
    have l: "length (?sq r) = C" using has_shape_nth[OF assms(1) r] by simp
    then have "?sq r \<noteq> []" using assms(3) by auto
    from argmin_spec(2,3)[OF this] l
    have d: "?d r < C" "\<forall>c<C. ?sq r ! ?d r \<le> ?sq r ! c" by simp_all
    have n: "?sq r ! c = (v ! r ! c - (?fwd ! r - g ! r))\<^sup>2" if "c < C" for c
      using that has_shape_nth[OF assms(1) r] by simp
    have "\<forall>c<C. (v ! r ! ?d r - (?fwd ! r - g ! r))\<^sup>2 \<le> (v ! r ! c - (?fwd ! r - g ! r))\<^sup>2"
    proof (intro allI impI)
      fix c assume c: "c < C"
      from d(2) c have "?sq r ! ?d r \<le> ?sq r ! c" by blast
      then show "(v ! r ! ?d r - (?fwd ! r - g ! r))\<^sup>2 \<le> (v ! r ! c - (?fwd ! r - g ! r))\<^sup>2"
        by (simp only: n[OF c] n[OF d(1)])
    qed
    moreover have "\<forall>c<C. ?gk ! r ! c = \<bar>g ! r\<bar> * (if c = ?d r then - 1 else 1)"
      using r assms(4) by simp
    moreover have "length (?gk ! r) = C" using r assms(4) by simp
    ultimately show ?thesis using d(1) by (intro conjI exI[of _ "?d r"]) assumption+
  qed
  show ?thesis
  proof (intro exI conjI)
    show "asymmetrical_vectored_lookup v k = Inr ?fwd" by (rule fw)
    show "length ?fwd = R" by simp
    show "\<forall>r<R. \<exists>a<C. ?fwd ! r = v ! r ! a \<and> (\<forall>c<C. k ! r ! c \<le> k ! r ! a) \<and>
                        (\<forall>c<a. k ! r ! c < k ! r ! a)"
      using a by (intro allI impI)
    show "grad v k ?fwd g = Inr (?gv, ?gk)" by (rule gr)
    show "length ?gv = R" using lk assms(4) by simp
    show "length ?gk = R" using assms(4) by simp
    show "\<forall>r<R. length (?gv ! r) = C \<and> (\<forall>c<C. ?gv ! r ! c = g ! r * k ! r ! c)"
      using b by (intro allI impI)
    show "\<forall>r<R. length (?gk ! r) = C \<and>
        (\<exists>d<C. (\<forall>c<C. (v ! r ! d - (?fwd ! r - g ! r))\<^sup>2 \<le> (v ! r ! c - (?fwd ! r - g ! r))\<^sup>2) \<and>
               (\<forall>c<C. ?gk ! r ! c = \<bar>g ! r\<bar> * (if c = d then - 1 else 1)))"
      using c by (intro allI impI)
  qed
qed

theorem asymmetric_lookup_forward_backward_witness:
  "asymmetrical_vectored_lookup [[1, 2, 3], [10, 20, 30]] [[0, 1, 0], [1, 0, 0]] = Inr [2, 10] \<and>
   grad [[1, 2, 3], [10, 20, 30]] [[0, 1, 0], [1, 0, 0]] [2, 10] [- 1, - 10] =
     Inr ([[0, - 1, 0], [- 10, 0, 0]], [[1, 1, - 1], [10, - 10, 10]])"
proof -
  let ?v = "[[1, 2, 3], [10, 20, 30]] :: mat" and ?k = "[[0, 1, 0], [1, 0, 0]] :: mat"
  have h: "has_shape ?v 2 3" "has_shape ?k 2 3" "(0::nat) < 3" "length [- 1, - 10 :: real] = 2"
    by (simp_all add: has_shape_def)
  have F: "asymmetrical_vectored_lookup ?v ?k = Inr [2, 10]" by code_simp
  have G: "grad ?v ?k [2, 10] [- 1, - 10] =
     Inr ([[0, - 1, 0], [- 10, 0, 0]], [[1, 1, - 1], [10, - 10, 10]])" by code_simp
  from asymmetric_lookup_forward_backward[OF h]
  obtain fwd gv gk where "asymmetrical_vectored_lookup ?v ?k = Inr fwd"
    "grad ?v ?k fwd [- 1, - 10] = Inr (gv, gk)" by blast
  with F G show ?thesis by simp
qed

end
